theory Spec2Isabelle
  imports Complex_Main "HOL-Library.Word"
begin

section \<open>JavaScript strings and bytes\<close>

text \<open>
  A JavaScript string is a sequence of UTF-16 code units; a \<open>Uint8Array\<close> is a sequence of
  bytes. String literals of the source are written with \<open>lit\<close>, which maps the ASCII
  characters of an Isabelle string to code units.
\<close>

type_synonym codeunit = "16 word"
type_synonym jsstring = "codeunit list"
type_synonym byte = "8 word"

definition lit :: "string \<Rightarrow> jsstring" where
  "lit s = map (\<lambda>c. of_nat (of_char c)) s"

definition is_high :: "codeunit \<Rightarrow> bool" where
  "is_high u = (0xD800 \<le> unat u \<and> unat u \<le> 0xDBFF)"

definition is_low :: "codeunit \<Rightarrow> bool" where
  "is_low u = (0xDC00 \<le> unat u \<and> unat u \<le> 0xDFFF)"

definition pair_cp :: "codeunit \<Rightarrow> codeunit \<Rightarrow> nat" where
  "pair_cp u v = 0x10000 + (unat u - 0xD800) * 0x400 + (unat v - 0xDC00)"

text \<open>The code units of a code point (\<open>UTF16EncodeCodePoint\<close>).\<close>

definition utf16_cp :: "nat \<Rightarrow> jsstring" where
  "utf16_cp c =
     (if c < 0x10000 then [of_nat c]
      else [of_nat (0xD800 + (c - 0x10000) div 0x400), of_nat (0xDC00 + (c - 0x10000) mod 0x400)])"

subsection \<open>\<open>TextEncoder.encode\<close>\<close>

definition utf8_cp :: "nat \<Rightarrow> byte list" where
  "utf8_cp c =
     (if c < 0x80 then [of_nat c]
      else if c < 0x800 then [of_nat (0xC0 + c div 0x40), of_nat (0x80 + c mod 0x40)]
      else if c < 0x10000 then
        [of_nat (0xE0 + c div 0x1000), of_nat (0x80 + (c div 0x40) mod 0x40),
         of_nat (0x80 + c mod 0x40)]
      else
        [of_nat (0xF0 + c div 0x40000), of_nat (0x80 + (c div 0x1000) mod 0x40),
         of_nat (0x80 + (c div 0x40) mod 0x40), of_nat (0x80 + c mod 0x40)])"

text \<open>
  The encoder reads the string as scalar values: a surrogate pair is one code point, a
  surrogate outside a pair is replaced by U+FFFD.
\<close>

definition scalar_of_unit :: "codeunit \<Rightarrow> nat" where
  "scalar_of_unit u = (if is_high u \<or> is_low u then 0xFFFD else unat u)"

fun encode :: "jsstring \<Rightarrow> byte list" where
  "encode [] = []"
| "encode [u] = utf8_cp (scalar_of_unit u)"
| "encode (u # v # rest) =
     (if is_high u \<and> is_low v then utf8_cp (pair_cp u v) @ encode rest
      else utf8_cp (scalar_of_unit u) @ encode (v # rest))"

subsection \<open>\<open>TextDecoder.decode(value, { stream: true })\<close>\<close>

text \<open>
  The UTF-8 decoder of the Encoding standard, one byte at a time. Its state survives
  between calls, because every call of the source passes \<open>stream: true\<close>; the source never
  flushes it. \<open>byte AND 0x1F\<close> is written \<open>b mod 32\<close>, and shifting the code point left by
  six bits and adding the low six bits of the byte is \<open>cp * 64 + b mod 64\<close>.
  \<open>bom_seen\<close> is the flag of \<open>TextDecoder\<close>: a byte order mark that starts the stream is
  dropped.
\<close>

record text_decoder =
  code_point :: nat
  bytes_seen :: nat
  bytes_needed :: nat
  lower_boundary :: nat
  upper_boundary :: nat
  bom_seen :: bool

definition new_decoder :: text_decoder where
  "new_decoder = \<lparr>code_point = 0, bytes_seen = 0, bytes_needed = 0,
     lower_boundary = 0x80, upper_boundary = 0xBF, bom_seen = False\<rparr>"

definition reset_utf8 :: "text_decoder \<Rightarrow> text_decoder" where
  "reset_utf8 d = d\<lparr>code_point := 0, bytes_seen := 0, bytes_needed := 0,
     lower_boundary := 0x80, upper_boundary := 0xBF\<rparr>"

text \<open>The first byte of a sequence; the result is the new state and the code points emitted.\<close>

definition lead_byte :: "text_decoder \<Rightarrow> nat \<Rightarrow> text_decoder \<times> nat list" where
  "lead_byte d b =
     (if b \<le> 0x7F then (d, [b])
      else if 0xC2 \<le> b \<and> b \<le> 0xDF then
        (d\<lparr>bytes_needed := 1, code_point := b mod 32\<rparr>, [])
      else if 0xE0 \<le> b \<and> b \<le> 0xEF then
        (d\<lparr>lower_boundary := (if b = 0xE0 then 0xA0 else lower_boundary d),
           upper_boundary := (if b = 0xED then 0x9F else upper_boundary d),
           bytes_needed := 2, code_point := b mod 16\<rparr>, [])
      else if 0xF0 \<le> b \<and> b \<le> 0xF4 then
        (d\<lparr>lower_boundary := (if b = 0xF0 then 0x90 else lower_boundary d),
           upper_boundary := (if b = 0xF4 then 0x8F else upper_boundary d),
           bytes_needed := 3, code_point := b mod 8\<rparr>, [])
      else (d, [0xFFFD]))"

definition utf8_byte :: "text_decoder \<Rightarrow> nat \<Rightarrow> text_decoder \<times> nat list" where
  "utf8_byte d b =
     (if bytes_needed d = 0 then lead_byte d b
      else if b < lower_boundary d \<or> upper_boundary d < b then
        (let (d', out) = lead_byte (reset_utf8 d) b in (d', 0xFFFD # out))
      else
        (let d1 = d\<lparr>lower_boundary := 0x80, upper_boundary := 0xBF,
                      code_point := code_point d * 64 + b mod 64,
                      bytes_seen := bytes_seen d + 1\<rparr>
         in if bytes_seen d1 \<noteq> bytes_needed d1 then (d1, [])
            else (reset_utf8 d1, [code_point d1])))"

text \<open>The code points become code units, after the byte order mark check.\<close>

fun emit :: "text_decoder \<Rightarrow> nat list \<Rightarrow> text_decoder \<times> jsstring" where
  "emit d [] = (d, [])"
| "emit d (c # cs) =
     (let (d', out) = emit (d\<lparr>bom_seen := True\<rparr>) cs
      in (d', (if \<not> bom_seen d \<and> c = 0xFEFF then [] else utf16_cp c) @ out))"

definition decode_byte :: "text_decoder \<Rightarrow> byte \<Rightarrow> text_decoder \<times> jsstring" where
  "decode_byte d b = (let (d', cps) = utf8_byte d (unat b) in emit d' cps)"

fun decode :: "text_decoder \<Rightarrow> byte list \<Rightarrow> text_decoder \<times> jsstring" where
  "decode d [] = (d, [])"
| "decode d (b # bs) =
     (let (d1, out1) = decode_byte d b; (d2, out2) = decode d1 bs in (d2, out1 @ out2))"

section \<open>JSON\<close>

datatype json =
    JNull
  | JBool bool
  | JNum jsstring
  | JStr jsstring
  | JArr "json list"
  | JObj "(jsstring \<times> json) list"

subsection \<open>\<open>JSON.stringify({ content: chunk })\<close>\<close>

definition hex_digit :: "nat \<Rightarrow> codeunit" where
  "hex_digit n = (if n < 10 then of_nat (0x30 + n) else of_nat (0x57 + n))"

definition unicode_escape :: "codeunit \<Rightarrow> jsstring" where
  "unicode_escape u =
     [0x5C, 0x75, hex_digit (unat u div 0x1000), hex_digit ((unat u div 0x100) mod 0x10),
      hex_digit ((unat u div 0x10) mod 0x10), hex_digit (unat u mod 0x10)]"

text \<open>
  \<open>QuoteJSONString\<close> on one code unit that is not part of a surrogate pair: the two-character
  escapes, \<open>\uXXXX\<close> for the other control characters and for a lone surrogate, the code
  unit itself otherwise.
\<close>

definition quote_unit :: "codeunit \<Rightarrow> jsstring" where
  "quote_unit u =
     (if u = 0x08 then [0x5C, 0x62]
      else if u = 0x09 then [0x5C, 0x74]
      else if u = 0x0A then [0x5C, 0x6E]
      else if u = 0x0C then [0x5C, 0x66]
      else if u = 0x0D then [0x5C, 0x72]
      else if u = 0x22 then [0x5C, 0x22]
      else if u = 0x5C then [0x5C, 0x5C]
      else if unat u < 0x20 \<or> is_high u \<or> is_low u then unicode_escape u
      else [u])"

fun quote_chars :: "jsstring \<Rightarrow> jsstring" where
  "quote_chars [] = []"
| "quote_chars [u] = quote_unit u"
| "quote_chars (u # v # rest) =
     (if is_high u \<and> is_low v then u # v # quote_chars rest
      else quote_unit u @ quote_chars (v # rest))"

definition quote_json :: "jsstring \<Rightarrow> jsstring" where
  "quote_json s = [0x22] @ quote_chars s @ [0x22]"

definition stringify_content :: "jsstring \<Rightarrow> jsstring" where
  "stringify_content chunk = [0x7B] @ quote_json (lit ''content'') @ [0x3A] @ quote_json chunk @ [0x7D]"

subsection \<open>\<open>JSON.parse\<close>\<close>

definition is_ws :: "codeunit \<Rightarrow> bool" where
  "is_ws c = (c = 0x09 \<or> c = 0x0A \<or> c = 0x0D \<or> c = 0x20)"

definition skip_ws :: "jsstring \<Rightarrow> jsstring" where
  "skip_ws cs = dropWhile is_ws cs"

definition hex_val :: "codeunit \<Rightarrow> nat option" where
  "hex_val c =
     (let n = unat c in
      if 0x30 \<le> n \<and> n \<le> 0x39 then Some (n - 0x30)
      else if 0x41 \<le> n \<and> n \<le> 0x46 then Some (n - 0x37)
      else if 0x61 \<le> n \<and> n \<le> 0x66 then Some (n - 0x57)
      else None)"

definition hex4 :: "codeunit \<Rightarrow> codeunit \<Rightarrow> codeunit \<Rightarrow> codeunit \<Rightarrow> codeunit option" where
  "hex4 a b c d =
     (case (hex_val a, hex_val b, hex_val c, hex_val d) of
        (Some x, Some y, Some z, Some w) \<Rightarrow> Some (of_nat (x * 0x1000 + y * 0x100 + z * 0x10 + w))
      | _ \<Rightarrow> None)"

definition unescape :: "codeunit \<Rightarrow> codeunit option" where
  "unescape e =
     (if e = 0x22 then Some 0x22
      else if e = 0x2F then Some 0x2F
      else if e = 0x5C then Some 0x5C
      else if e = 0x62 then Some 0x08
      else if e = 0x66 then Some 0x0C
      else if e = 0x6E then Some 0x0A
      else if e = 0x72 then Some 0x0D
      else if e = 0x74 then Some 0x09
      else None)"

definition cons_fst :: "'a \<Rightarrow> ('a list \<times> 'b) option \<Rightarrow> ('a list \<times> 'b) option" where
  "cons_fst x r = (case r of None \<Rightarrow> None | Some (xs, rest) \<Rightarrow> Some (x # xs, rest))"

text \<open>The characters of a string after its opening quote, up to the closing quote.\<close>

fun parse_string :: "jsstring \<Rightarrow> (jsstring \<times> jsstring) option" where
  "parse_string [] = None"
| "parse_string (c # cs) =
     (if c = 0x22 then Some ([], cs)
      else if c = 0x5C then
        (case cs of
           [] \<Rightarrow> None
         | e # cs' \<Rightarrow>
            (if e = 0x75 then
               (case cs' of
                  h1 # h2 # h3 # h4 # cs'' \<Rightarrow>
                    (case hex4 h1 h2 h3 h4 of
                       None \<Rightarrow> None
                     | Some u \<Rightarrow> cons_fst u (parse_string cs''))
                | _ \<Rightarrow> None)
             else
               (case unescape e of
                  None \<Rightarrow> None
                | Some u \<Rightarrow> cons_fst u (parse_string cs'))))
      else if unat c < 0x20 then None
      else cons_fst c (parse_string cs))"

definition is_digit :: "codeunit \<Rightarrow> bool" where
  "is_digit c = (0x30 \<le> unat c \<and> unat c \<le> 0x39)"

text \<open>One or more digits.\<close>

definition digits1 :: "jsstring \<Rightarrow> (jsstring \<times> jsstring) option" where
  "digits1 cs =
     (if takeWhile is_digit cs = [] then None
      else Some (takeWhile is_digit cs, dropWhile is_digit cs))"

definition number_int :: "jsstring \<Rightarrow> (jsstring \<times> jsstring) option" where
  "number_int cs =
     (case cs of
        [] \<Rightarrow> None
      | c # r \<Rightarrow> if c = 0x30 then Some ([c], r) else digits1 cs)"

definition number_frac :: "jsstring \<Rightarrow> (jsstring \<times> jsstring) option" where
  "number_frac cs =
     (case cs of
        [] \<Rightarrow> Some ([], cs)
      | c # r \<Rightarrow>
         if c = 0x2E then (case digits1 r of None \<Rightarrow> None | Some (ds, r') \<Rightarrow> Some (c # ds, r'))
         else Some ([], cs))"

definition number_exp :: "jsstring \<Rightarrow> (jsstring \<times> jsstring) option" where
  "number_exp cs =
     (case cs of
        [] \<Rightarrow> Some ([], cs)
      | c # r \<Rightarrow>
         if c = 0x65 \<or> c = 0x45 then
           (case r of
              [] \<Rightarrow> None
            | s # r' \<Rightarrow>
               if s = 0x2B \<or> s = 0x2D then
                 (case digits1 r' of None \<Rightarrow> None | Some (ds, r'') \<Rightarrow> Some (c # s # ds, r''))
               else (case digits1 r of None \<Rightarrow> None | Some (ds, r'') \<Rightarrow> Some (c # ds, r'')))
         else Some ([], cs))"

text \<open>A number is kept as its lexeme.\<close>

definition parse_number :: "jsstring \<Rightarrow> (jsstring \<times> jsstring) option" where
  "parse_number cs =
     (let (sign, cs1) = (case cs of c # r \<Rightarrow> if c = 0x2D then ([c], r) else ([], cs) | [] \<Rightarrow> ([], cs))
      in case number_int cs1 of
           None \<Rightarrow> None
         | Some (i, cs2) \<Rightarrow>
            (case number_frac cs2 of
               None \<Rightarrow> None
             | Some (f, cs3) \<Rightarrow>
                (case number_exp cs3 of
                   None \<Rightarrow> None
                 | Some (e, cs4) \<Rightarrow> Some (sign @ i @ f @ e, cs4))))"

definition starts_with :: "'a list \<Rightarrow> 'a list \<Rightarrow> bool" where
  "starts_with s p = (take (length p) s = p)"

text \<open>
  Recursive descent over the JSON grammar. The first argument bounds the depth of the
  calls; \<open>json_parse\<close> starts it above the length of the text, which no text exhausts
  (\<open>json_parse_fuel\<close> below).
\<close>

fun parse_value :: "nat \<Rightarrow> jsstring \<Rightarrow> (json \<times> jsstring) option"
  and parse_elements :: "nat \<Rightarrow> jsstring \<Rightarrow> (json list \<times> jsstring) option"
  and parse_members :: "nat \<Rightarrow> jsstring \<Rightarrow> ((jsstring \<times> json) list \<times> jsstring) option"
where
  "parse_value 0 cs = None"
| "parse_value (Suc n) cs =
     (case cs of
        [] \<Rightarrow> None
      | c # r \<Rightarrow>
         if c = 0x7B then
           (case skip_ws r of
              [] \<Rightarrow> None
            | c' # r' \<Rightarrow>
               if c' = 0x7D then Some (JObj [], r')
               else (case parse_members n (c' # r') of
                       None \<Rightarrow> None
                     | Some (kvs, r'') \<Rightarrow> Some (JObj kvs, r'')))
         else if c = 0x5B then
           (case skip_ws r of
              [] \<Rightarrow> None
            | c' # r' \<Rightarrow>
               if c' = 0x5D then Some (JArr [], r')
               else (case parse_elements n (c' # r') of
                       None \<Rightarrow> None
                     | Some (vs, r'') \<Rightarrow> Some (JArr vs, r'')))
         else if c = 0x22 then
           (case parse_string r of None \<Rightarrow> None | Some (s, r') \<Rightarrow> Some (JStr s, r'))
         else if starts_with cs (lit ''null'') then Some (JNull, drop 4 cs)
         else if starts_with cs (lit ''true'') then Some (JBool True, drop 4 cs)
         else if starts_with cs (lit ''false'') then Some (JBool False, drop 5 cs)
         else (case parse_number cs of None \<Rightarrow> None | Some (l, r') \<Rightarrow> Some (JNum l, r')))"
| "parse_elements 0 cs = None"
| "parse_elements (Suc n) cs =
     (case parse_value n cs of
        None \<Rightarrow> None
      | Some (v, r) \<Rightarrow>
         (case skip_ws r of
            [] \<Rightarrow> None
          | c # r' \<Rightarrow>
             if c = 0x2C then cons_fst v (parse_elements n (skip_ws r'))
             else if c = 0x5D then Some ([v], r')
             else None))"
| "parse_members 0 cs = None"
| "parse_members (Suc n) cs =
     (case cs of
        [] \<Rightarrow> None
      | q # r \<Rightarrow>
         if q \<noteq> 0x22 then None
         else
           (case parse_string r of
              None \<Rightarrow> None
            | Some (k, r1) \<Rightarrow>
               (case skip_ws r1 of
                  [] \<Rightarrow> None
                | c # r2 \<Rightarrow>
                   if c \<noteq> 0x3A then None
                   else
                     (case parse_value n (skip_ws r2) of
                        None \<Rightarrow> None
                      | Some (v, r3) \<Rightarrow>
                         (case skip_ws r3 of
                            [] \<Rightarrow> None
                          | c' # r4 \<Rightarrow>
                             if c' = 0x2C then cons_fst (k, v) (parse_members n (skip_ws r4))
                             else if c' = 0x7D then Some ([(k, v)], r4)
                             else None)))))"

text \<open>\<open>JSON.parse(data)\<close>: \<open>None\<close> is the \<open>SyntaxError\<close>.\<close>

definition json_parse :: "jsstring \<Rightarrow> json option" where
  "json_parse s =
     (case parse_value (Suc (length s)) (skip_ws s) of
        None \<Rightarrow> None
      | Some (v, r) \<Rightarrow> if skip_ws r = [] then Some v else None)"

section \<open>The stream framer (the \<open>start\<close> callback of \<open>POST\<close>)\<close>

text \<open>
  One frame per fragment pulled from the generator, whatever the fragment is:
  \<open>encoder.encode(`data: ${JSON.stringify({ content: chunk })}\n\n`)\<close>.
\<close>

definition data_line :: "jsstring \<Rightarrow> jsstring" where
  "data_line chunk = lit ''data: '' @ stringify_content chunk"

definition frame_text :: "jsstring \<Rightarrow> jsstring" where
  "frame_text chunk = data_line chunk @ [0x0A, 0x0A]"

definition frame :: "jsstring \<Rightarrow> byte list" where
  "frame chunk = encode (frame_text chunk)"

definition done_text :: jsstring where
  "done_text = lit ''data: [DONE]'' @ [0x0A, 0x0A]"

definition done_frame :: "byte list" where
  "done_frame = encode done_text"

text \<open>
  The chunks enqueued when the generator yields \<open>fs\<close> and returns, and when it yields
  \<open>fs\<close> and then throws.
\<close>

definition frames :: "jsstring list \<Rightarrow> byte list list" where
  "frames fs = map frame fs"

definition framed :: "jsstring list \<Rightarrow> byte list list" where
  "framed fs = frames fs @ [done_frame]"

section \<open>The stream reassembler (\<open>ChatPlayground.handleSubmit\<close>)\<close>

datatype role = User | Assistant | System

record message =
  role :: role
  content :: jsstring

text \<open>
  The state of the component, with what it reports: the messages passed to
  \<open>toast.error\<close> and the first argument of each \<open>console.error\<close>.
\<close>

record client =
  messages :: "message list"
  input :: jsstring
  isLoading :: bool
  toasts :: "string list"
  console :: "string list"

text \<open>\<open>buffer.split("\n\n")\<close>: never empty, the last element is what follows the last separator.\<close>

fun split_nn :: "jsstring \<Rightarrow> jsstring list" where
  "split_nn [] = [[]]"
| "split_nn [c] = [[c]]"
| "split_nn (c # d # rest) =
     (if c = 0x0A \<and> d = 0x0A then [] # split_nn rest
      else (case split_nn (d # rest) of
              [] \<Rightarrow> [[c]]
            | x # xs \<Rightarrow> (c # x) # xs))"

datatype js_error = TypeError | SyntaxError | NetworkError | UpstreamError | Error jsstring

text \<open>
  \<open>const { content } = JSON.parse(data)\<close>: destructuring \<open>null\<close> throws; an object gives
  its property (the last of duplicate keys), and \<open>None\<close>, for \<open>undefined\<close>, when it has
  none; arrays, strings, numbers and booleans have no property \<open>content\<close>.
\<close>

definition content_property :: "json \<Rightarrow> json option" where
  "content_property v =
     (case v of
        JObj kvs \<Rightarrow> map_of (rev kvs) (lit ''content'')
      | _ \<Rightarrow> None)"

definition destructure_content :: "json \<Rightarrow> js_error + json option" where
  "destructure_content v =
     (case v of
        JNull \<Rightarrow> Inl TypeError
      | _ \<Rightarrow> Inr (content_property v))"

text \<open>
  The right operand of \<open>lastMsg.content += content\<close> as a string. The conversion of a
  number, an array or an object (number formatting, \<open>ToPrimitive\<close>) is left to the
  parameter \<open>ts\<close>.
\<close>

definition concat_operand :: "(json \<Rightarrow> jsstring) \<Rightarrow> json option \<Rightarrow> jsstring" where
  "concat_operand ts c =
     (case c of
        None \<Rightarrow> lit ''undefined''
      | Some (JStr s) \<Rightarrow> s
      | Some JNull \<Rightarrow> lit ''null''
      | Some (JBool b) \<Rightarrow> (if b then lit ''true'' else lit ''false'')
      | Some v \<Rightarrow> ts v)"

text \<open>
  The updater passed to \<open>setMessages\<close> in the loop: the last message grows. On an empty
  list it would throw; the list is never empty there, since the assistant message was
  appended before the loop (lemma \<open>process_lines_keeps_messages\<close> below). Updaters are
  applied once each, in the order of the calls; one that throws leaves the messages as
  they were.
\<close>

definition append_last :: "jsstring \<Rightarrow> message list \<Rightarrow> js_error + message list" where
  "append_last c ms =
     (if ms = [] then Inl TypeError
      else Inr (butlast ms @ [(last ms)\<lparr>content := content (last ms) @ c\<rparr>]))"

definition set_messages :: "(message list \<Rightarrow> js_error + message list) \<Rightarrow> client \<Rightarrow> client" where
  "set_messages f st = (case f (messages st) of Inl e \<Rightarrow> st | Inr ms \<Rightarrow> st\<lparr>messages := ms\<rparr>)"

definition console_error :: "string \<Rightarrow> client \<Rightarrow> client" where
  "console_error m st = st\<lparr>console := console st @ [m]\<rparr>"

definition toast_error :: "string \<Rightarrow> client \<Rightarrow> client" where
  "toast_error m st = st\<lparr>toasts := toasts st @ [m]\<rparr>"

text \<open>The \<open>for (const line of lines)\<close> loop; \<open>break\<close> leaves the rest of the lines unread.\<close>

fun process_lines :: "(json \<Rightarrow> jsstring) \<Rightarrow> jsstring list \<Rightarrow> client \<Rightarrow> client" where
  "process_lines ts [] st = st"
| "process_lines ts (line # lines) st =
     (if starts_with line (lit ''data: '') then
        (let data = drop 6 line in
         if data = lit ''[DONE]'' then st
         else
           (case json_parse data of
              None \<Rightarrow> process_lines ts lines (console_error ''Error parsing JSON chunk'' st)
            | Some v \<Rightarrow>
               (case destructure_content v of
                  Inl e \<Rightarrow> process_lines ts lines (console_error ''Error parsing JSON chunk'' st)
                | Inr c \<Rightarrow>
                   process_lines ts lines (set_messages (append_last (concat_operand ts c)) st))))
      else process_lines ts lines st)"

text \<open>What the \<open>while\<close> loop carries from one \<open>reader.read()\<close> to the next.\<close>

record reader =
  decoder :: text_decoder
  buffer :: jsstring
  ui :: client

text \<open>One turn of the loop with \<open>done\<close> false and \<open>value\<close> the bytes read.\<close>

definition read_chunk :: "(json \<Rightarrow> jsstring) \<Rightarrow> reader \<Rightarrow> byte list \<Rightarrow> reader" where
  "read_chunk ts r val =
     (let (d, chunk) = decode (decoder r) val;
          buf = buffer r @ chunk;
          lines = split_nn buf
      in \<lparr>decoder = d, buffer = last lines, ui = process_lines ts (butlast lines) (ui r)\<rparr>)"

definition read_all :: "(json \<Rightarrow> jsstring) \<Rightarrow> reader \<Rightarrow> byte list list \<Rightarrow> reader" where
  "read_all ts r chunks = foldl (read_chunk ts) r chunks"

text \<open>
  How the body of the response ends: \<open>reader.read()\<close> resolves with \<open>done\<close>, or it
  rejects (the server errored the stream, the connection broke).
\<close>

datatype ending = Eof | ReadFails

datatype fetch_result =
    FetchFails
  | Response nat "(byte list list \<times> ending) option"

definition is_js_space :: "codeunit \<Rightarrow> bool" where
  "is_js_space c =
     (c \<in> set [0x09, 0x0A, 0x0B, 0x0C, 0x0D, 0x20, 0xA0, 0x1680, 0x2028, 0x2029, 0x202F,
                0x205F, 0x3000, 0xFEFF]
      \<or> (0x2000 \<le> unat c \<and> unat c \<le> 0x200A))"

definition assistant_message :: message where
  "assistant_message = \<lparr>role = Assistant, content = []\<rparr>"

text \<open>The body of \<open>try\<close> from the response on; \<open>Inl\<close> is a throw, caught below.\<close>

definition receive :: "(json \<Rightarrow> jsstring) \<Rightarrow> client \<Rightarrow> fetch_result \<Rightarrow> client \<times> js_error option" where
  "receive ts st fr =
     (case fr of
        FetchFails \<Rightarrow> (st, Some NetworkError)
      | Response status body \<Rightarrow>
         if \<not> (200 \<le> status \<and> status \<le> 299) then
           ((if status = 401 then toast_error ''You must be logged in to chat.'' st
             else toast_error ''Failed to send message.'' st)\<lparr>isLoading := False\<rparr>, None)
         else
           (case body of
              None \<Rightarrow> (st, Some (Error (lit ''No reader available'')))
            | Some (chunks, end) \<Rightarrow>
               (let st1 = set_messages (\<lambda>prev. Inr (prev @ [assistant_message])) st;
                    r = read_all ts \<lparr>decoder = new_decoder, buffer = [], ui = st1\<rparr> chunks
                in (ui r, (case end of Eof \<Rightarrow> None | ReadFails \<Rightarrow> Some NetworkError)))))"

definition handleSubmit :: "(json \<Rightarrow> jsstring) \<Rightarrow> client \<Rightarrow> fetch_result \<Rightarrow> client" where
  "handleSubmit ts st fr =
     (if filter (\<lambda>c. \<not> is_js_space c) (input st) = [] \<or> isLoading st then st
      else
        (let userMessage = \<lparr>role = User, content = input st\<rparr>;
             st1 = (set_messages (\<lambda>prev. Inr (prev @ [userMessage])) st)
                     \<lparr>input := [], isLoading := True\<rparr>;
             (st2, thrown) = receive ts st1 fr;
             st3 = (case thrown of
                      None \<Rightarrow> st2
                    | Some e \<Rightarrow> toast_error ''Something went wrong.'' (console_error ''Chat error:'' st2))
         in st3\<lparr>isLoading := False\<rparr>))"

section \<open>The unified generator (\<open>generateChatResponse\<close>, \<open>streamChatResponse\<close>)\<close>

text \<open>
  The options of both functions; \<open>None\<close> is \<open>undefined\<close>. A temperature is only passed
  on, never computed with.
\<close>

record options =
  model :: "jsstring option"
  maxTokens :: "nat option"
  temperature :: "rat option"

text \<open>
  What the provider clients are called with. In order: for OpenAI \<open>model\<close>, \<open>messages\<close>,
  \<open>max_tokens\<close>, \<open>temperature\<close>, \<open>stream\<close>; for Anthropic \<open>model\<close>, \<open>max_tokens\<close>,
  \<open>system\<close>, \<open>messages\<close>; for Gemini the model name, \<open>history\<close>, \<open>maxOutputTokens\<close>,
  \<open>temperature\<close> and the text sent. Building the Gemini model and chat objects contacts
  nobody; the call is \<open>sendMessage\<close> or \<open>sendMessageStream\<close>.
\<close>

datatype gemini_role = GUser | GModel

datatype upstream_call =
    OpenAI_create jsstring "message list" nat rat bool
  | Anthropic_create jsstring nat "jsstring option" "message list"
  | Anthropic_stream jsstring nat "jsstring option" "message list"
  | Gemini_sendMessage jsstring "(gemini_role \<times> jsstring list) list" nat rat jsstring
  | Gemini_sendMessageStream jsstring "(gemini_role \<times> jsstring list) list" nat rat jsstring

text \<open>A stream from a provider: the items delivered, then the end or a throw.\<close>

datatype 'a stream = Stream "'a list" "js_error option"

text \<open>
  What comes back. An OpenAI completion or chunk is its list of choices, each the
  \<open>content\<close> of its message or delta (\<open>None\<close> for \<open>null\<close> or a missing field). An
  Anthropic message is its list of content blocks, a stream event of Anthropic may be a
  \<open>content_block_delta\<close> with the index of its block. Of a Gemini response and chunk the
  code only calls \<open>text()\<close>, which returns a string or throws.

  \<open>model.startChat({ history, generationConfig })\<close> is a call into the Gemini SDK that
  sends nothing, but the SDK checks the history there and throws when it refuses it.
  \<open>gemini_startChat\<close> is that check, on the model name, the history, \<open>maxOutputTokens\<close>
  and \<open>temperature\<close>: \<open>None\<close> when the chat is opened, the error thrown otherwise.
\<close>

datatype block = TextBlock jsstring | OtherBlock

datatype delta = TextDelta jsstring | OtherDelta

datatype event = ContentBlockDelta nat delta | OtherEvent

record upstream =
  openai_create :: "upstream_call \<Rightarrow> js_error + jsstring option list"
  openai_create_stream :: "upstream_call \<Rightarrow> js_error + jsstring option list stream"
  anthropic_create :: "upstream_call \<Rightarrow> js_error + block list"
  anthropic_stream :: "upstream_call \<Rightarrow> js_error + event stream"
  gemini_startChat ::
    "jsstring \<Rightarrow> (gemini_role \<times> jsstring list) list \<Rightarrow> nat \<Rightarrow> rat \<Rightarrow> js_error option"
  gemini_sendMessage :: "upstream_call \<Rightarrow> js_error + (js_error + jsstring)"
  gemini_sendMessageStream :: "upstream_call \<Rightarrow> js_error + (js_error + jsstring) stream"

definition default_temperature :: rat where
  "default_temperature = 7 / 10"

text \<open>\<open>options?.model || dflt\<close>: the default also replaces the empty string.\<close>

definition model_or :: "options \<Rightarrow> jsstring \<Rightarrow> jsstring" where
  "model_or opts dflt = (case model opts of None \<Rightarrow> dflt | Some m \<Rightarrow> if m = [] then dflt else m)"

definition maxTokens_of :: "options \<Rightarrow> nat" where
  "maxTokens_of opts = (case maxTokens opts of None \<Rightarrow> 1024 | Some n \<Rightarrow> n)"

definition temperature_of :: "options \<Rightarrow> rat" where
  "temperature_of opts = (case temperature opts of None \<Rightarrow> default_temperature | Some t \<Rightarrow> t)"

text \<open>\<open>messages.find((m) => m.role === "system")?.content\<close>\<close>

definition systemMessage :: "message list \<Rightarrow> jsstring option" where
  "systemMessage ms = map_option content (find (\<lambda>m. role m = System) ms)"

definition otherMessages :: "message list \<Rightarrow> message list" where
  "otherMessages ms = filter (\<lambda>m. role m \<noteq> System) ms"

text \<open>\<open>messages.slice(0, -1).map(...)\<close>\<close>

definition history :: "message list \<Rightarrow> (gemini_role \<times> jsstring list) list" where
  "history ms = map (\<lambda>m. (if role m = User then GUser else GModel, [content m])) (butlast ms)"

text \<open>\<open>response.choices[0]?.message?.content\<close>, \<open>chunk.choices[0]?.delta?.content\<close>\<close>

definition first_choice :: "jsstring option list \<Rightarrow> jsstring option" where
  "first_choice choices = (case choices of [] \<Rightarrow> None | c # _ \<Rightarrow> c)"

text \<open>\<open>block.type === "text"\<close>, and the text returned from \<open>response.content\<close>\<close>

definition is_text :: "block \<Rightarrow> bool" where
  "is_text b = (case b of TextBlock t \<Rightarrow> True | OtherBlock \<Rightarrow> False)"

definition textBlock :: "block list \<Rightarrow> jsstring" where
  "textBlock blocks =
     (case find is_text blocks of
        Some (TextBlock t) \<Rightarrow> t
      | _ \<Rightarrow> [])"

text \<open>
  The blocking operation: the calls made to providers, and the text returned or the
  error thrown. The Gemini branch opens the chat first, and throws what \<open>startChat\<close>
  throws; with no message it then throws when it reads \<open>lastMessage.content\<close>, before
  sending.
\<close>

definition generateChatResponse ::
  "upstream \<Rightarrow> message list \<Rightarrow> jsstring \<Rightarrow> options \<Rightarrow> upstream_call list \<times> (js_error + jsstring)"
where
  "generateChatResponse up ms provider opts =
     (if provider = lit ''openai'' then
        (let call = OpenAI_create (model_or opts (lit ''gpt-3.5-turbo'')) ms (maxTokens_of opts)
                      (temperature_of opts) False
         in ([call],
             case openai_create up call of
               Inl e \<Rightarrow> Inl e
             | Inr choices \<Rightarrow> Inr (case first_choice choices of None \<Rightarrow> [] | Some t \<Rightarrow> t)))
      else if provider = lit ''anthropic'' then
        (let call = Anthropic_create (model_or opts (lit ''claude-3-sonnet-20240229''))
                      (maxTokens_of opts) (systemMessage ms) (otherMessages ms)
         in ([call],
             case anthropic_create up call of
               Inl e \<Rightarrow> Inl e
             | Inr blocks \<Rightarrow> Inr (textBlock blocks)))
      else if provider = lit ''google'' then
        (case gemini_startChat up (model_or opts (lit ''gemini-flash-latest'')) (history ms)
                (maxTokens_of opts) (temperature_of opts) of
           Some e \<Rightarrow> ([], Inl e)
         | None \<Rightarrow>
            if ms = [] then ([], Inl TypeError)
            else
              (let call = Gemini_sendMessage (model_or opts (lit ''gemini-flash-latest''))
                            (history ms) (maxTokens_of opts) (temperature_of opts)
                            (content (last ms))
               in ([call],
                   case gemini_sendMessage up call of
                     Inl e \<Rightarrow> Inl e
                   | Inr response \<Rightarrow> response)))
      else ([], Inl (Error (lit ''Unsupported AI provider: '' @ provider))))"

text \<open>What each loop of the generator yields from the items of its stream.\<close>

definition openai_yields :: "jsstring option list list \<Rightarrow> jsstring list" where
  "openai_yields chunks =
     concat (map (\<lambda>chunk. case first_choice chunk of
                              None \<Rightarrow> []
                            | Some t \<Rightarrow> if t = [] then [] else [t]) chunks)"

definition anthropic_yields :: "event list \<Rightarrow> jsstring list" where
  "anthropic_yields events =
     concat (map (\<lambda>ev. case ev of
                          ContentBlockDelta i (TextDelta t) \<Rightarrow> [t]
                        | _ \<Rightarrow> []) events)"

fun gemini_yields :: "(js_error + jsstring) list \<Rightarrow> jsstring list \<times> js_error option" where
  "gemini_yields [] = ([], None)"
| "gemini_yields (Inl e # rest) = ([], Some e)"
| "gemini_yields (Inr t # rest) =
     (let (fs, thrown) = gemini_yields rest in ((if t = [] then [] else [t]) @ fs, thrown))"

text \<open>
  The generator, run to its end: the calls made, the fragments yielded, and the error
  thrown after them if any. The Gemini branch opens the chat first, as in the blocking
  operation.
\<close>

definition streamChatResponse ::
  "upstream \<Rightarrow> message list \<Rightarrow> jsstring \<Rightarrow> options \<Rightarrow>
     upstream_call list \<times> jsstring list \<times> js_error option"
where
  "streamChatResponse up ms provider opts =
     (if provider = lit ''openai'' then
        (let call = OpenAI_create (model_or opts (lit ''gpt-3.5-turbo'')) ms (maxTokens_of opts)
                      (temperature_of opts) True
         in case openai_create_stream up call of
              Inl e \<Rightarrow> ([call], [], Some e)
            | Inr (Stream chunks thrown) \<Rightarrow> ([call], openai_yields chunks, thrown))
      else if provider = lit ''anthropic'' then
        (let call = Anthropic_stream (model_or opts (lit ''claude-3-sonnet-20240229''))
                      (maxTokens_of opts) (systemMessage ms) (otherMessages ms)
         in case anthropic_stream up call of
              Inl e \<Rightarrow> ([call], [], Some e)
            | Inr (Stream events thrown) \<Rightarrow> ([call], anthropic_yields events, thrown))
      else if provider = lit ''google'' then
        (case gemini_startChat up (model_or opts (lit ''gemini-flash-latest'')) (history ms)
                (maxTokens_of opts) (temperature_of opts) of
           Some e \<Rightarrow> ([], [], Some e)
         | None \<Rightarrow>
            if ms = [] then ([], [], Some TypeError)
            else
              (let call = Gemini_sendMessageStream (model_or opts (lit ''gemini-flash-latest''))
                            (history ms) (maxTokens_of opts) (temperature_of opts)
                            (content (last ms))
               in case gemini_sendMessageStream up call of
                    Inl e \<Rightarrow> ([call], [], Some e)
                  | Inr (Stream chunks thrown) \<Rightarrow>
                     (case gemini_yields chunks of
                        (fs, Some e) \<Rightarrow> ([call], fs, Some e)
                      | (fs, None) \<Rightarrow> ([call], fs, thrown))))
      else ([], [], Some (Error (lit ''Unsupported AI provider: '' @ provider))))"

section \<open>The chat endpoint (\<open>POST\<close>)\<close>

text \<open>
  The \<open>messages\<close> of the body: missing, some JSON value that is not an array, or an array,
  read as the \<open>ChatMessage[]\<close> it is cast to. The body itself: \<open>messages\<close>, \<open>provider\<close>,
  \<open>model\<close>.
\<close>

datatype body_messages = Undefined | NonArray | Messages "message list"

datatype chat_body = Body body_messages "jsstring option" "jsstring option"

text \<open>
  A request: the \<open>userId\<close> that \<open>auth()\<close> resolves to (\<open>None\<close> for \<open>null\<close>), and the body,
  \<open>None\<close> when \<open>request.json()\<close> throws.
\<close>

record request =
  userId :: "jsstring option"
  body :: "chat_body option"

text \<open>
  A response: \<open>NextResponse.json({ error }, { status })\<close>, or the event stream with the
  chunks enqueued and how it ended (\<open>controller.close()\<close> or \<open>controller.error(error)\<close>).
\<close>

datatype http_response =
    JsonError nat string
  | EventStream "byte list list" "js_error option"

definition POST :: "upstream \<Rightarrow> request \<Rightarrow> upstream_call list \<times> http_response" where
  "POST up req =
     (if userId req = None \<or> userId req = Some [] then ([], JsonError 401 ''Unauthorized'')
      else
        (case body req of
           None \<Rightarrow> ([], JsonError 500 ''Internal server error'')
         | Some (Body msgs prov mdl) \<Rightarrow>
            (case msgs of
               Messages ms \<Rightarrow>
                 (let provider = (case prov of None \<Rightarrow> lit ''openai'' | Some p \<Rightarrow> p);
                      (calls, fs, thrown) =
                         streamChatResponse up ms provider
                           \<lparr>model = mdl, maxTokens = None, temperature = None\<rparr>
                  in (calls,
                      EventStream (case thrown of None \<Rightarrow> framed fs | Some e \<Rightarrow> frames fs) thrown))
             | _ \<Rightarrow> ([], JsonError 400 ''Messages array is required''))))"

section \<open>Providers whose stream spells their response\<close>

text \<open>
  What is read from one item: the text of the first choice, of a content block, of a
  delta for block \<open>i\<close>, of a Gemini chunk.
\<close>

definition choice_text :: "jsstring option list \<Rightarrow> jsstring" where
  "choice_text choices = (case first_choice choices of None \<Rightarrow> [] | Some t \<Rightarrow> t)"

definition block_text :: "block \<Rightarrow> jsstring" where
  "block_text b = (case b of TextBlock t \<Rightarrow> t | OtherBlock \<Rightarrow> [])"

definition delta_text :: "nat \<Rightarrow> event \<Rightarrow> jsstring" where
  "delta_text i ev =
     (case ev of
        ContentBlockDelta j (TextDelta t) \<Rightarrow> if j = i then t else []
      | _ \<Rightarrow> [])"

definition chunk_text :: "js_error + jsstring \<Rightarrow> jsstring" where
  "chunk_text c = (case c of Inl e \<Rightarrow> [] | Inr t \<Rightarrow> t)"

text \<open>
  A provider that answers the same request the same way in both modes: whenever the
  blocking call returns a response and the streaming call of the same request runs to
  its end, the stream spells that response. For OpenAI the deltas of the first choice
  spell its message; for Anthropic the text deltas of each block spell that block, and
  every delta belongs to a block of the message; for Gemini the chunks spell the text.
\<close>

definition spells :: "upstream \<Rightarrow> bool" where
  "spells up =
     ((\<forall>m ms n t choices chunks.
         openai_create up (OpenAI_create m ms n t False) = Inr choices \<longrightarrow>
         openai_create_stream up (OpenAI_create m ms n t True) = Inr (Stream chunks None) \<longrightarrow>
         concat (map choice_text chunks) = choice_text choices)
    \<and> (\<forall>m n s ms blocks events.
         anthropic_create up (Anthropic_create m n s ms) = Inr blocks \<longrightarrow>
         anthropic_stream up (Anthropic_stream m n s ms) = Inr (Stream events None) \<longrightarrow>
         (\<forall>i<length blocks. concat (map (delta_text i) events) = block_text (blocks ! i))
         \<and> (\<forall>i d. ContentBlockDelta i d \<in> set events \<longrightarrow> i < length blocks))
    \<and> (\<forall>m h n t p text chunks.
         gemini_sendMessage up (Gemini_sendMessage m h n t p) = Inr (Inr text) \<longrightarrow>
         gemini_sendMessageStream up (Gemini_sendMessageStream m h n t p) =
           Inr (Stream chunks None) \<longrightarrow>
         concat (map chunk_text chunks) = text))"

text \<open>The messages of Anthropic hold at most one text block.\<close>

definition one_text_block :: "upstream \<Rightarrow> bool" where
  "one_text_block up =
     (\<forall>call blocks. anthropic_create up call = Inr blocks \<longrightarrow> length (filter is_text blocks) \<le> 1)"

section \<open>Sample inputs\<close>

text \<open>A conversion of numbers, arrays and objects that is never called on a string.\<close>

definition no_coercion :: "json \<Rightarrow> jsstring" where
  "no_coercion v = []"

text \<open>A fresh component in which the user has typed \<open>hi\<close>.\<close>

definition typed_hi :: client where
  "typed_hi = \<lparr>messages = [], input = lit ''hi'', isLoading = False, toasts = [], console = []\<rparr>"

text \<open>
  Fragments with a quotation mark, a line feed, U+1F600 as a surrogate pair, a surrogate
  on its own and a letter outside ASCII.
\<close>

definition awkward :: "jsstring list" where
  "awkward = [lit ''Hel'', [0x22, 0x0A, 0xD83D, 0xDE00], [0xD83D], [0xE9] @ lit ''lo'']"

text \<open>A fragment that is one letter of two bytes in UTF-8, and the fragments of \<open>Hello\<close>.\<close>

definition e_acute :: "jsstring list" where
  "e_acute = [[0xE9]]"

definition hel_lo :: "jsstring list" where
  "hel_lo = [lit ''Hel'', lit ''lo'']"

text \<open>The component while the answer arrives.\<close>

definition waiting :: client where
  "waiting =
     \<lparr>messages = [\<lparr>role = User, content = lit ''hi''\<rparr>, \<lparr>role = Assistant, content = lit ''Hel''\<rparr>],
      input = [], isLoading = True, toasts = [], console = []\<rparr>"

text \<open>
  A chat that refuses a history whose first entry does not have the role \<open>user\<close>, as the
  Gemini SDK does when it opens a chat.
\<close>

definition user_first ::
  "jsstring \<Rightarrow> (gemini_role \<times> jsstring list) list \<Rightarrow> nat \<Rightarrow> rat \<Rightarrow> js_error option"
where
  "user_first m h n t =
     (case h of
        (GModel, parts) # rest \<Rightarrow>
          Some (Error (lit ''[GoogleGenerativeAI Error]: First content should be with role 'user', got model''))
      | _ \<Rightarrow> None)"

text \<open>Providers that answer \<open>Hi\<close> to everything, in one piece or in two.\<close>

definition greeter :: upstream where
  "greeter =
     \<lparr>openai_create = (\<lambda>c. Inr [Some (lit ''Hi'')]),
      openai_create_stream = (\<lambda>c. Inr (Stream [[Some (lit ''H'')], [Some (lit ''i'')]] None)),
      anthropic_create = (\<lambda>c. Inr [TextBlock (lit ''Hi'')]),
      anthropic_stream =
        (\<lambda>c. Inr (Stream [ContentBlockDelta 0 (TextDelta (lit ''H'')),
                            ContentBlockDelta 0 (TextDelta (lit ''i''))] None)),
      gemini_startChat = user_first,
      gemini_sendMessage = (\<lambda>c. Inr (Inr (lit ''Hi''))),
      gemini_sendMessageStream = (\<lambda>c. Inr (Stream [Inr (lit ''H''), Inr (lit ''i'')] None))\<rparr>"

text \<open>The same, but Anthropic streams one empty text delta.\<close>

definition empty_delta :: upstream where
  "empty_delta =
     greeter\<lparr>anthropic_stream := (\<lambda>c. Inr (Stream [ContentBlockDelta 0 (TextDelta [])] None))\<rparr>"

text \<open>The same, but the message of Anthropic has two text blocks.\<close>

definition two_blocks :: upstream where
  "two_blocks =
     greeter\<lparr>anthropic_create := (\<lambda>c. Inr [TextBlock (lit ''Hel''), TextBlock (lit ''lo'')]),
             anthropic_stream :=
               (\<lambda>c. Inr (Stream [ContentBlockDelta 0 (TextDelta (lit ''Hel'')),
                                   ContentBlockDelta 1 (TextDelta (lit ''lo''))] None))\<rparr>"

definition no_options :: options where
  "no_options = \<lparr>model = None, maxTokens = None, temperature = None\<rparr>"

definition says_hi :: "message list" where
  "says_hi = [\<lparr>role = User, content = lit ''hi''\<rparr>]"

text \<open>
  A conversation that opens with a system instruction, and one that the user opens, with
  a system message inside and the assistant's turn last.
\<close>

definition briefed :: "message list" where
  "briefed = [\<lparr>role = System, content = lit ''X''\<rparr>, \<lparr>role = User, content = lit ''Y''\<rparr>]"

definition resumed :: "message list" where
  "resumed = [\<lparr>role = User, content = lit ''hi''\<rparr>, \<lparr>role = System, content = lit ''X''\<rparr>,
              \<lparr>role = Assistant, content = lit ''A''\<rparr>]"

section \<open>Notions used in the proofs\<close>

text \<open>The line on which the \<open>for\<close> loop breaks.\<close>

definition is_sentinel :: "jsstring \<Rightarrow> bool" where
  "is_sentinel line = (starts_with line (lit ''data: '') \<and> drop 6 line = lit ''[DONE]'')"

text \<open>A decoder between two characters, and the code points that UTF-8 encodes.\<close>

definition idle :: "text_decoder \<Rightarrow> bool" where
  "idle d = (code_point d = 0 \<and> bytes_seen d = 0 \<and> bytes_needed d = 0 \<and>
     lower_boundary d = 0x80 \<and> upper_boundary d = 0xBF)"

definition scalar :: "nat \<Rightarrow> bool" where
  "scalar c = (c < 0xD800 \<or> (0xE000 \<le> c \<and> c < 0x110000))"

text \<open>A string in which every surrogate is half of a pair.\<close>

fun wf16 :: "jsstring \<Rightarrow> bool" where
  "wf16 [] = True"
| "wf16 [u] = (\<not> is_high u \<and> \<not> is_low u)"
| "wf16 (u # v # rest) =
     (if is_high u \<and> is_low v then wf16 rest
      else \<not> is_high u \<and> \<not> is_low u \<and> wf16 (v # rest))"

text \<open>
  Fuel \<open>n\<close> is enough: whatever the parser returns with it, it has read at least one
  character and returns the same with as much fuel as it has read characters.
\<close>

definition enough :: "nat \<Rightarrow> bool" where
  "enough n =
     ((\<forall>cs v r. parse_value n cs = Some (v, r) \<longrightarrow>
         length r < length cs \<and> parse_value (length cs - length r) cs = Some (v, r))
    \<and> (\<forall>cs vs r. parse_elements n cs = Some (vs, r) \<longrightarrow>
         length r < length cs \<and> parse_elements (length cs - length r) cs = Some (vs, r))
    \<and> (\<forall>cs kvs r. parse_members n cs = Some (kvs, r) \<longrightarrow>
         length r < length cs \<and> parse_members (length cs - length r) cs = Some (kvs, r)))"


section \<open>Splitting and the read loop\<close>

lemma decode_append:
  "decode d (a @ b) = (let (d1, o1) = decode d a; (d2, o2) = decode d1 b in (d2, o1 @ o2))"
  by (induction a arbitrary: d) (auto split: prod.splits)

lemma split_nn_nonempty [simp]: "split_nn s \<noteq> []"
  by (induction s rule: split_nn.induct) (auto split: list.splits)

lemma split_nn_nosep:
  "\<not> (c = 0x0A \<and> d = 0x0A) \<Longrightarrow>
   split_nn (c # d # rest) = (c # hd (split_nn (d # rest))) # tl (split_nn (d # rest))"
  by (cases "split_nn (d # rest)") auto

lemma split_nn_single: "split_nn s = [x] \<Longrightarrow> x = s"
proof (induction s arbitrary: x rule: split_nn.induct)
  case (3 c d rest)
  show ?case
  proof (cases "c = 0x0A \<and> d = 0x0A")
    case True
    with 3 show ?thesis by simp
  next
    case False
    from False 3(3) have "split_nn (d # rest) = [hd (split_nn (d # rest))]" and "x = c # hd (split_nn (d # rest))"
      by (cases "split_nn (d # rest)"; simp add: split_nn_nosep del: split_nn.simps)+
    with 3(2)[OF False] show ?thesis by simp
  qed
qed simp_all

lemma split_nn_append:
  "split_nn (a @ b) = butlast (split_nn a) @ split_nn (last (split_nn a) @ b)"
proof (induction a rule: split_nn.induct)
  case 1
  then show ?case by simp
next
  case (2 c)
  then show ?case by simp
next
  case (3 c d rest)
  show ?case
  proof (cases "c = 0x0A \<and> d = 0x0A")
    case True
    with 3 show ?thesis by simp
  next
    case False
    note ih = 3(2)[OF False]
    obtain x xs where sp: "split_nn (d # rest) = x # xs"
      by (cases "split_nn (d # rest)") auto
    have whole: "split_nn (c # d # rest) = (c # x) # xs"
      using False sp by (simp add: split_nn_nosep del: split_nn.simps)
    show ?thesis
    proof (cases xs)
      case Nil
      with sp have "x = d # rest" by (simp add: split_nn_single)
      with whole Nil show ?thesis by (simp del: split_nn.simps)
    next
      case (Cons y ys)
      have "split_nn ((c # d # rest) @ b) = (c # hd (split_nn (d # rest @ b))) # tl (split_nn (d # rest @ b))"
        using False by (simp add: split_nn_nosep del: split_nn.simps)
      also have "split_nn (d # rest @ b) = x # butlast xs @ split_nn (last xs @ b)"
        using ih sp Cons by (simp del: split_nn.simps)
      finally show ?thesis using whole Cons by (simp del: split_nn.simps)
    qed
  qed
qed

lemma split_nn_last: "split_nn (last (split_nn s)) = [last (split_nn s)]"
proof (induction s rule: split_nn.induct)
  case (3 c d rest)
  show ?case
  proof (cases "c = 0x0A \<and> d = 0x0A")
    case True
    with 3 show ?thesis by simp
  next
    case False
    note ih = 3(2)[OF False]
    obtain x xs where sp: "split_nn (d # rest) = x # xs"
      by (cases "split_nn (d # rest)") auto
    have whole: "split_nn (c # d # rest) = (c # x) # xs"
      using False sp by (simp add: split_nn_nosep del: split_nn.simps)
    show ?thesis
    proof (cases xs)
      case Nil
      with sp have "x = d # rest" by (simp add: split_nn_single)
      with whole Nil show ?thesis by (simp del: split_nn.simps)
    next
      case (Cons y ys)
      with ih sp whole show ?thesis by (simp del: split_nn.simps)
    qed
  qed
qed simp_all

lemma split_nn_line:
  "0x0A \<notin> set l \<Longrightarrow> split_nn (l @ 0x0A # 0x0A # rest) = l # split_nn rest"
proof (induction l)
  case Nil
  then show ?case by simp
next
  case (Cons c l)
  then show ?case by (cases l) auto
qed


lemma process_lines_append:
  "\<forall>l\<in>set ls. \<not> is_sentinel l \<Longrightarrow>
   process_lines ts (ls @ ls') st = process_lines ts ls' (process_lines ts ls st)"
  by (induction ls arbitrary: st)
     (auto simp: is_sentinel_def Let_def split: option.splits sum.splits)

lemma process_lines_keeps_messages:
  "messages st \<noteq> [] \<Longrightarrow> messages (process_lines ts ls st) \<noteq> []"
  by (induction ls arbitrary: st)
     (auto simp: Let_def set_messages_def append_last_def console_error_def
        split: option.splits sum.splits)

lemma read_all_Cons: "read_all ts r (c # cs) = read_all ts (read_chunk ts r c) cs"
  by (simp add: read_all_def)

lemma read_all_general:
  assumes "split_nn (buffer r) = [buffer r]"
    and "decode (decoder r) (concat cs) = (d, t)"
    and "\<forall>l\<in>set (butlast (butlast (split_nn (buffer r @ t)))). \<not> is_sentinel l"
  shows "read_all ts r cs =
           \<lparr>decoder = d, buffer = last (split_nn (buffer r @ t)),
            ui = process_lines ts (butlast (split_nn (buffer r @ t))) (ui r)\<rparr>"
  using assms
proof (induction cs arbitrary: r d t)
  case Nil
  then show ?case by (simp add: read_all_def)
next
  case (Cons c cs)
  obtain d1 t1 where dec1: "decode (decoder r) c = (d1, t1)"
    by (cases "decode (decoder r) c")
  obtain d2 t2 where dec2: "decode d1 (concat cs) = (d2, t2)"
    by (cases "decode d1 (concat cs)")
  from Cons.prems(2) dec1 dec2 have dt: "d = d2" "t = t1 @ t2"
    by (simp_all add: decode_append)
  define L1 where "L1 = split_nn (buffer r @ t1)"
  define L2 where "L2 = split_nn (last L1 @ t2)"
  define r1 where "r1 = read_chunk ts r c"
  have r1: "decoder r1 = d1" "buffer r1 = last L1" "ui r1 = process_lines ts (butlast L1) (ui r)"
    by (simp_all add: r1_def read_chunk_def dec1 L1_def Let_def)
  have whole: "split_nn (buffer r @ t) = butlast L1 @ L2"
    unfolding dt L1_def L2_def using split_nn_append [of "buffer r @ t1" t2] by simp
  have L2ne: "L2 \<noteq> []" by (simp add: L2_def)
  have bl: "butlast (butlast L1 @ L2) = butlast L1 @ butlast L2"
    using L2ne by (simp add: butlast_append)
  have p1: "split_nn (buffer r1) = [buffer r1]"
    by (simp add: r1 L1_def split_nn_last)
  have p2: "decode (decoder r1) (concat cs) = (d2, t2)"
    by (simp add: r1 dec2)
  have nos: "\<forall>l\<in>set (butlast (butlast L1 @ butlast L2)). \<not> is_sentinel l"
    using Cons.prems(3) by (simp add: whole bl)
  have p3: "\<forall>l\<in>set (butlast (butlast (split_nn (buffer r1 @ t2)))). \<not> is_sentinel l"
    using nos by (cases "butlast L2 = []") (simp_all add: r1 L2_def [symmetric] butlast_append)
  have ih: "read_all ts r1 cs =
      \<lparr>decoder = d2, buffer = last L2, ui = process_lines ts (butlast L2) (ui r1)\<rparr>"
    using Cons.IH [OF p1 p2 p3] by (simp add: r1 L2_def)
  have pl: "process_lines ts (butlast L1 @ butlast L2) (ui r) =
      process_lines ts (butlast L2) (process_lines ts (butlast L1) (ui r))"
  proof (cases "butlast L2 = []")
    case True
    then show ?thesis by simp
  next
    case False
    with nos have "\<forall>l\<in>set (butlast L1). \<not> is_sentinel l"
      by (simp add: butlast_append)
    then show ?thesis by (rule process_lines_append)
  qed
  show ?case
    unfolding read_all_Cons r1_def [symmetric] ih whole bl
    using L2ne by (simp add: dt r1 pl)
qed

section \<open>UTF-8: decoding what was encoded\<close>

lemma unat_byte: "n < 256 \<Longrightarrow> unat (of_nat n :: byte) = n"
  by (simp add: unat_of_nat)

lemma decode_Cons_nat:
  "decode d (of_nat n # bs) =
     (let (d1, cps) = utf8_byte d (unat (of_nat n :: byte)); (d1', out1) = emit d1 cps;
          (d2, out2) = decode d1' bs in (d2, out1 @ out2))"
  by (simp add: decode_byte_def split: prod.splits)


lemma decode_scalar1:
  assumes "c < 0x80" "idle d"
  shows "decode d (utf8_cp c @ bs) =
    (let (d2, o2) = decode (d\<lparr>bom_seen := True\<rparr>) bs
     in (d2, (if \<not> bom_seen d \<and> c = 0xFEFF then [] else utf16_cp c) @ o2))"
proof -
  have u: "utf8_cp c = [of_nat c]" using assms by (simp add: utf8_cp_def)
  have b: "utf8_byte d (unat (of_nat c :: byte)) = (d, [c])"
    using assms by (simp add: unat_byte utf8_byte_def lead_byte_def idle_def)
  have ne: "c \<noteq> 0xFEFF" using assms by simp
  show ?thesis
    unfolding u using ne by (simp add: decode_byte_def b split: prod.splits)
qed


lemma mod_offset:
  fixes x :: nat
  shows "x < 32 \<Longrightarrow> (0xC0 + x) mod 32 = x"
    and "x < 16 \<Longrightarrow> (0xE0 + x) mod 16 = x"
    and "x < 8 \<Longrightarrow> (0xF0 + x) mod 8 = x"
    and "x < 64 \<Longrightarrow> (0x80 + x) mod 64 = x"
  using mod_mult_self4 [of 32 6 x] mod_mult_self4 [of 16 14 x] mod_mult_self4 [of 8 30 x]
    mod_mult_self4 [of 64 2 x]
  by simp_all

lemma idle_reset: "idle d \<Longrightarrow> reset_utf8 (d\<lparr>lower_boundary := lo, upper_boundary := hi,
    code_point := cp, bytes_seen := s\<rparr>) = d"
  by (cases d) (simp add: idle_def reset_utf8_def)

lemma idle_reset2: "idle d \<Longrightarrow> reset_utf8 (d\<lparr>lower_boundary := lo', upper_boundary := hi',
    bytes_needed := n, code_point := cp', lower_boundary := lo, upper_boundary := hi,
    code_point := cp, bytes_seen := s\<rparr>) = d"
  by (cases d) (simp add: idle_def reset_utf8_def)

lemma decode_emit1:
  "utf8_byte d n = (d', [c]) \<Longrightarrow> n < 256 \<Longrightarrow>
   decode d (of_nat n # bs) =
     (let (d2, o2) = decode (d'\<lparr>bom_seen := True\<rparr>) bs
      in (d2, (if \<not> bom_seen d' \<and> c = 0xFEFF then [] else utf16_cp c) @ o2))"
  by (simp add: decode_byte_def unat_byte split: prod.splits)

lemma decode_emit0:
  "utf8_byte d n = (d', []) \<Longrightarrow> n < 256 \<Longrightarrow> decode d (of_nat n # bs) = decode d' bs"
  by (simp add: decode_byte_def unat_byte split: prod.splits)

lemma run2:
  assumes "idle d" "2 \<le> x" "x < 32" "z < 64"
  shows "decode d (of_nat (0xC0 + x) # of_nat (0x80 + z) # bs) =
     (let (d2, o2) = decode (d\<lparr>bom_seen := True\<rparr>) bs
      in (d2, (if \<not> bom_seen d \<and> x * 64 + z = 0xFEFF then [] else utf16_cp (x * 64 + z)) @ o2))"
proof -
  define d1 where "d1 = d\<lparr>bytes_needed := 1, code_point := x\<rparr>"
  have s1: "utf8_byte d (0xC0 + x) = (d1, [])"
    using assms by (simp add: utf8_byte_def lead_byte_def idle_def mod_offset d1_def)
  have s2: "utf8_byte d1 (0x80 + z) = (d, [x * 64 + z])"
    using assms
    by (simp add: utf8_byte_def idle_def mod_offset d1_def Let_def)
       (cases d, simp add: reset_utf8_def)
  have lt: "0xC0 + x < 256" "0x80 + z < 256" using assms by simp_all
  show ?thesis
    by (simp only: decode_emit0 [OF s1 lt(1)] decode_emit1 [OF s2 lt(2)])
qed

lemma run3:
  assumes "idle d" "x < 16" "y < 64" "z < 64" "x = 0 \<longrightarrow> 32 \<le> y" "x = 13 \<longrightarrow> y < 32"
  shows "decode d (of_nat (0xE0 + x) # of_nat (0x80 + y) # of_nat (0x80 + z) # bs) =
     (let (d2, o2) = decode (d\<lparr>bom_seen := True\<rparr>) bs
      in (d2, (if \<not> bom_seen d \<and> (x * 64 + y) * 64 + z = 0xFEFF then []
               else utf16_cp ((x * 64 + y) * 64 + z)) @ o2))"
proof -
  define d1 where "d1 = d\<lparr>lower_boundary := (if x = 0 then 0xA0 else 0x80),
           upper_boundary := (if x = 13 then 0x9F else 0xBF),
           bytes_needed := 2, code_point := x\<rparr>"
  define d2 where "d2 = d\<lparr>bytes_needed := 2, code_point := x * 64 + y, bytes_seen := 1\<rparr>"
  have s1: "utf8_byte d (0xE0 + x) = (d1, [])"
    using assms by (simp add: utf8_byte_def lead_byte_def idle_def mod_offset d1_def)
  have s2: "utf8_byte d1 (0x80 + y) = (d2, [])"
    using assms
    by (simp add: utf8_byte_def idle_def mod_offset d1_def d2_def Let_def)
       (cases d, auto)
  have s3: "utf8_byte d2 (0x80 + z) = (d, [(x * 64 + y) * 64 + z])"
    using assms
    by (simp add: utf8_byte_def idle_def mod_offset d2_def Let_def)
       (cases d, simp add: reset_utf8_def)
  have lt: "0xE0 + x < 256" "0x80 + y < 256" "0x80 + z < 256" using assms by simp_all
  show ?thesis
    by (simp only: decode_emit0 [OF s1 lt(1)] decode_emit0 [OF s2 lt(2)] decode_emit1 [OF s3 lt(3)])
qed

lemma run4:
  assumes "idle d" "x < 5" "w < 64" "y < 64" "z < 64" "x = 0 \<longrightarrow> 16 \<le> w" "x = 4 \<longrightarrow> w < 16"
  shows "decode d (of_nat (0xF0 + x) # of_nat (0x80 + w) # of_nat (0x80 + y) # of_nat (0x80 + z) # bs) =
     (let (d2, o2) = decode (d\<lparr>bom_seen := True\<rparr>) bs
      in (d2, (if \<not> bom_seen d \<and> ((x * 64 + w) * 64 + y) * 64 + z = 0xFEFF then []
               else utf16_cp (((x * 64 + w) * 64 + y) * 64 + z)) @ o2))"
proof -
  define d1 where "d1 = d\<lparr>lower_boundary := (if x = 0 then 0x90 else 0x80),
           upper_boundary := (if x = 4 then 0x8F else 0xBF),
           bytes_needed := 3, code_point := x\<rparr>"
  define d2 where "d2 = d\<lparr>bytes_needed := 3, code_point := x * 64 + w, bytes_seen := 1\<rparr>"
  define d3 where "d3 = d\<lparr>bytes_needed := 3, code_point := (x * 64 + w) * 64 + y, bytes_seen := 2\<rparr>"
  have s1: "utf8_byte d (0xF0 + x) = (d1, [])"
    using assms by (simp add: utf8_byte_def lead_byte_def idle_def mod_offset d1_def)
  have s2: "utf8_byte d1 (0x80 + w) = (d2, [])"
    using assms
    by (simp add: utf8_byte_def idle_def mod_offset d1_def d2_def Let_def)
       (cases d, auto)
  have s3: "utf8_byte d2 (0x80 + y) = (d3, [])"
    using assms
    by (simp add: utf8_byte_def idle_def mod_offset d2_def d3_def Let_def)
  have s4: "utf8_byte d3 (0x80 + z) = (d, [((x * 64 + w) * 64 + y) * 64 + z])"
    using assms
    by (simp add: utf8_byte_def idle_def mod_offset d3_def Let_def)
       (cases d, simp add: reset_utf8_def)
  have lt: "0xF0 + x < 256" "0x80 + w < 256" "0x80 + y < 256" "0x80 + z < 256"
    using assms by simp_all
  show ?thesis
    by (simp only: decode_emit0 [OF s1 lt(1)] decode_emit0 [OF s2 lt(2)]
          decode_emit0 [OF s3 lt(3)] decode_emit1 [OF s4 lt(4)])
qed


lemma digits:
  fixes c :: nat
  shows "c div 0x40 * 0x40 + c mod 0x40 = c"
    and "c div 0x1000 * 0x40 + (c div 0x40) mod 0x40 = c div 0x40"
    and "c div 0x40000 * 0x40 + (c div 0x1000) mod 0x40 = c div 0x1000"
proof -
  show "c div 0x40 * 0x40 + c mod 0x40 = c" by simp
  have "c div 0x1000 = c div 0x40 div 0x40" by (simp add: div_mult2_eq)
  then show "c div 0x1000 * 0x40 + (c div 0x40) mod 0x40 = c div 0x40" by simp
  have "c div 0x40000 = c div 0x1000 div 0x40" by (simp add: div_mult2_eq)
  then show "c div 0x40000 * 0x40 + (c div 0x1000) mod 0x40 = c div 0x1000" by simp
qed

lemma decode_scalar:
  assumes "scalar c" "idle d"
  shows "decode d (utf8_cp c @ bs) =
    (let (d2, o2) = decode (d\<lparr>bom_seen := True\<rparr>) bs
     in (d2, (if \<not> bom_seen d \<and> c = 0xFEFF then [] else utf16_cp c) @ o2))"
proof -
  define z where "z = c mod 0x40"
  define y where "y = (c div 0x40) mod 0x40"
  define w where "w = (c div 0x1000) mod 0x40"
  define q1 where "q1 = c div 0x40"
  define q2 where "q2 = c div 0x1000"
  define q3 where "q3 = c div 0x40000"
  have lt: "z < 64" "y < 64" "w < 64" by (simp_all add: z_def y_def w_def)
  have e1: "q1 * 64 + z = c" and e2: "q2 * 64 + y = q1" and e3: "q3 * 64 + w = q2"
    using digits [of c] by (simp_all add: z_def y_def w_def q1_def q2_def q3_def)
  consider "c < 0x80" | "0x80 \<le> c" "c < 0x800" | "0x800 \<le> c" "c < 0x10000"
    | "0x10000 \<le> c" by linarith
  then show ?thesis
  proof cases
    case 1
    then show ?thesis using assms(2) by (rule decode_scalar1)
  next
    case 2
    have u: "utf8_cp c = [of_nat (0xC0 + q1), of_nat (0x80 + z)]"
      using 2 by (simp add: utf8_cp_def q1_def z_def)
    have b: "2 \<le> q1" "q1 < 32" using 2 e1 lt by linarith+
    show ?thesis
      unfolding u using run2 [OF assms(2) b lt(1), of bs] e1 by simp
  next
    case 3
    have u: "utf8_cp c = [of_nat (0xE0 + q2), of_nat (0x80 + y), of_nat (0x80 + z)]"
      using 3 by (simp add: utf8_cp_def q2_def y_def z_def)
    have sc: "c < 0xD800 \<or> 0xE000 \<le> c" using assms(1) by (auto simp: scalar_def)
    have b: "q2 < 16" "q2 = 0 \<longrightarrow> 32 \<le> y" "q2 = 13 \<longrightarrow> y < 32"
      using 3 sc e1 e2 lt by linarith+
    have "(q2 * 64 + y) * 64 + z = c" using e1 e2 by simp
    then show ?thesis
      unfolding u using run3 [OF assms(2) b(1) lt(2) lt(1) b(2) b(3), of bs] by simp
  next
    case 4
    have u: "utf8_cp c = [of_nat (0xF0 + q3), of_nat (0x80 + w), of_nat (0x80 + y), of_nat (0x80 + z)]"
      using 4 by (simp add: utf8_cp_def q3_def w_def y_def z_def)
    have sc: "c < 0x110000" using assms(1) 4 by (auto simp: scalar_def)
    have b: "q3 < 5" "q3 = 0 \<longrightarrow> 16 \<le> w" "q3 = 4 \<longrightarrow> w < 16"
      using 4 sc e1 e2 e3 lt by linarith+
    have "((q3 * 64 + w) * 64 + y) * 64 + z = c" using e1 e2 e3 by simp
    then show ?thesis
      unfolding u using run4 [OF assms(2) b(1) lt(3) lt(2) lt(1) b(2) b(3), of bs] by simp
  qed
qed

lemma unat_unit_lt: "unat (u :: codeunit) < 0x10000"
  using unsigned_less [of u, where ?'a = nat] by simp

lemma scalar_unit: "\<not> is_high u \<Longrightarrow> \<not> is_low u \<Longrightarrow> scalar (unat u)"
  using unat_unit_lt [of u] by (auto simp: is_high_def is_low_def scalar_def)

lemma utf16_unit: "utf16_cp (unat (u :: codeunit)) = [u]"
  using unat_unit_lt [of u] by (simp add: utf16_cp_def)

lemma pair_cp_bounds:
  assumes "is_high u" "is_low v"
  shows "0x10000 \<le> pair_cp u v" "pair_cp u v < 0x110000"
  using assms by (auto simp: is_high_def is_low_def pair_cp_def)

lemma utf16_pair:
  assumes "is_high u" "is_low v"
  shows "utf16_cp (pair_cp u v) = [u, v]"
proof -
  define a where "a = unat u - 0xD800"
  define b where "b = unat v - 0xDC00"
  have ab: "b < 0x400" "0xD800 + a = unat u" "0xDC00 + b = unat v"
    using assms by (auto simp: is_high_def is_low_def a_def b_def)
  have p: "pair_cp u v - 0x10000 = a * 0x400 + b"
    by (simp add: pair_cp_def a_def b_def)
  have "(a * 0x400 + b) div 0x400 = a" "(a * 0x400 + b) mod 0x400 = b"
    using ab(1) by simp_all
  then show ?thesis
    using pair_cp_bounds(1) [OF assms] ab
    by (simp add: utf16_cp_def p)
qed

lemma bom_True: "bom_seen d \<Longrightarrow> d\<lparr>bom_seen := True\<rparr> = d"
  by (cases d) simp

lemma decode_encode:
  assumes "wf16 t" "idle d" "bom_seen d"
  shows "decode d (encode t @ bs) = (let (d2, o2) = decode d bs in (d2, t @ o2))"
  using assms(1)
proof (induction t rule: wf16.induct)
  case 1
  then show ?case by simp
next
  case (2 u)
  then have "scalar (unat u)" by (simp add: scalar_unit)
  from decode_scalar [OF this assms(2), of bs] 2 assms(3)
  show ?case by (simp add: scalar_of_unit_def bom_True utf16_unit)
next
  case (3 u v rest)
  show ?case
  proof (cases "is_high u \<and> is_low v")
    case True
    then have hl: "is_high u" "is_low v" by simp_all
    have "scalar (pair_cp u v)"
      using pair_cp_bounds [OF hl] by (simp add: scalar_def)
    from decode_scalar [OF this assms(2), of "encode rest @ bs"] True 3 assms(3)
    show ?thesis by (simp add: bom_True utf16_pair split: prod.splits)
  next
    case False
    with 3 have nu: "\<not> is_high u" "\<not> is_low u" and wf: "wf16 (v # rest)" by simp_all
    have "scalar (unat u)" using nu by (simp add: scalar_unit)
    from decode_scalar [OF this assms(2), of "encode (v # rest) @ bs"] False 3 assms(3) nu
    show ?thesis by (simp add: scalar_of_unit_def bom_True utf16_unit split: prod.splits)
  qed
qed

lemma wf16_Cons: "\<not> is_high u \<Longrightarrow> \<not> is_low u \<Longrightarrow> wf16 (u # t) = wf16 t"
  by (cases t) simp_all

lemma wf16_append: "wf16 a \<Longrightarrow> wf16 b \<Longrightarrow> wf16 (a @ b)"
proof (induction a rule: wf16.induct)
  case 1
  then show ?case by simp
next
  case (2 u)
  then show ?case by (simp add: wf16_Cons)
next
  case (3 u v rest)
  then show ?case by (simp split: if_splits)
qed

lemma encode_Cons: "\<not> is_high u \<Longrightarrow> \<not> is_low u \<Longrightarrow> encode (u # t) = utf8_cp (unat u) @ encode t"
  by (cases t) (simp_all add: scalar_of_unit_def)

lemma encode_append: "wf16 a \<Longrightarrow> encode (a @ b) = encode a @ encode b"
proof (induction a rule: wf16.induct)
  case 1
  then show ?case by simp
next
  case (2 u)
  then show ?case by (simp add: encode_Cons scalar_of_unit_def)
next
  case (3 u v rest)
  then show ?case by (simp split: if_splits)
qed

section \<open>JSON: the parser is not limited by its fuel\<close>

lemma cons_fst_Some:
  "cons_fst x r = Some y \<longleftrightarrow> (\<exists>xs rest. r = Some (xs, rest) \<and> y = (x # xs, rest))"
  by (auto simp: cons_fst_def split: option.splits)

lemma value_mono:
  assumes e: "\<And>cs x. parse_elements n cs = Some x \<Longrightarrow> parse_elements (Suc n) cs = Some x"
    and m: "\<And>cs x. parse_members n cs = Some x \<Longrightarrow> parse_members (Suc n) cs = Some x"
    and a: "parse_value (Suc n) cs = Some x"
  shows "parse_value (Suc (Suc n)) cs = Some x"
proof (cases cs)
  case Nil
  with a show ?thesis by simp
next
  case (Cons c r)
  consider (obj) "c = 0x7B" | (arr) "c \<noteq> 0x7B" "c = 0x5B" | (other) "c \<noteq> 0x7B" "c \<noteq> 0x5B"
    by blast
  then show ?thesis
  proof cases
    case obj
    show ?thesis
    proof (cases "skip_ws r")
      case Nil
      with a Cons obj show ?thesis by simp
    next
      case (Cons c' r')
      show ?thesis
      proof (cases "c' = 0x7D")
        case True
        with a \<open>cs = c # r\<close> obj Cons show ?thesis by simp
      next
        case False
        with a \<open>cs = c # r\<close> obj Cons obtain kvs r'' where
          p: "parse_members n (c' # r') = Some (kvs, r'')" and x: "x = (JObj kvs, r'')"
          by (auto split: option.splits)
        from m [OF p] \<open>cs = c # r\<close> obj Cons False x show ?thesis
          by (simp del: parse_members.simps)
      qed
    qed
  next
    case arr
    show ?thesis
    proof (cases "skip_ws r")
      case Nil
      with a Cons arr show ?thesis by simp
    next
      case (Cons c' r')
      show ?thesis
      proof (cases "c' = 0x5D")
        case True
        with a \<open>cs = c # r\<close> arr Cons show ?thesis by simp
      next
        case False
        with a \<open>cs = c # r\<close> arr Cons obtain vs r'' where
          p: "parse_elements n (c' # r') = Some (vs, r'')" and x: "x = (JArr vs, r'')"
          by (auto split: option.splits)
        from e [OF p] \<open>cs = c # r\<close> arr Cons False x show ?thesis
          by (simp del: parse_elements.simps)
      qed
    qed
  next
    case other
    with a Cons show ?thesis by simp
  qed
qed


lemma elements_mono:
  assumes v: "\<And>cs x. parse_value n cs = Some x \<Longrightarrow> parse_value (Suc n) cs = Some x"
    and e: "\<And>cs x. parse_elements n cs = Some x \<Longrightarrow> parse_elements (Suc n) cs = Some x"
    and a: "parse_elements (Suc n) cs = Some x"
  shows "parse_elements (Suc (Suc n)) cs = Some x"
proof -
  from a obtain w r where p: "parse_value n cs = Some (w, r)"
    by (auto split: option.splits)
  note p' = v [OF p]
  show ?thesis
  proof (cases "skip_ws r")
    case Nil
    with a p show ?thesis by simp
  next
    case (Cons c r')
    consider (comma) "c = 0x2C" | (close) "c \<noteq> 0x2C" "c = 0x5D" | (other) "c \<noteq> 0x2C" "c \<noteq> 0x5D"
      by blast
    then show ?thesis
    proof cases
      case comma
      with a p Cons obtain ws r'' where
        q: "parse_elements n (skip_ws r') = Some (ws, r'')" and x: "x = (w # ws, r'')"
        by (auto simp: cons_fst_Some)
      from e [OF q] p' Cons comma x show ?thesis
        by (subst parse_elements.simps)
           (simp add: cons_fst_def del: parse_value.simps parse_elements.simps)
    next
      case close
      with a p Cons have "x = ([w], r')" by simp
      with close p' Cons show ?thesis
        by (subst parse_elements.simps) (simp del: parse_value.simps parse_elements.simps)
    next
      case other
      with a p Cons show ?thesis by simp
    qed
  qed
qed

lemma members_mono:
  assumes v: "\<And>cs x. parse_value n cs = Some x \<Longrightarrow> parse_value (Suc n) cs = Some x"
    and m: "\<And>cs x. parse_members n cs = Some x \<Longrightarrow> parse_members (Suc n) cs = Some x"
    and a: "parse_members (Suc n) cs = Some x"
  shows "parse_members (Suc (Suc n)) cs = Some x"
proof -
  from a obtain r where cs: "cs = 0x22 # r"
    by (cases cs) (auto split: if_splits)
  from a cs obtain k r1 where ps: "parse_string r = Some (k, r1)"
    by (auto split: option.splits)
  from a cs ps obtain r2 where sk: "skip_ws r1 = 0x3A # r2"
    by (cases "skip_ws r1") (auto split: if_splits)
  from a cs ps sk obtain w r3 where p: "parse_value n (skip_ws r2) = Some (w, r3)"
    by (auto split: option.splits)
  note p' = v [OF p]
  show ?thesis
  proof (cases "skip_ws r3")
    case Nil
    with a cs ps sk p show ?thesis by simp
  next
    case (Cons c r4)
    consider (comma) "c = 0x2C" | (close) "c \<noteq> 0x2C" "c = 0x7D" | (other) "c \<noteq> 0x2C" "c \<noteq> 0x7D"
      by blast
    then show ?thesis
    proof cases
      case comma
      with a cs ps sk p Cons obtain kvs r5 where
        q: "parse_members n (skip_ws r4) = Some (kvs, r5)" and x: "x = ((k, w) # kvs, r5)"
        by (auto simp: cons_fst_Some)
      from m [OF q] p' cs ps sk Cons comma x show ?thesis
        by (subst parse_members.simps)
           (simp add: cons_fst_def del: parse_value.simps parse_members.simps)
    next
      case close
      with a cs ps sk p Cons have "x = ([(k, w)], r4)" by simp
      with close cs ps sk p' Cons show ?thesis
        by (subst parse_members.simps) (simp del: parse_value.simps parse_members.simps)
    next
      case other
      with a cs ps sk p Cons show ?thesis by simp
    qed
  qed
qed

lemma fuel_step:
  "(\<forall>cs x. parse_value n cs = Some x \<longrightarrow> parse_value (Suc n) cs = Some x) \<and>
   (\<forall>cs x. parse_elements n cs = Some x \<longrightarrow> parse_elements (Suc n) cs = Some x) \<and>
   (\<forall>cs x. parse_members n cs = Some x \<longrightarrow> parse_members (Suc n) cs = Some x)"
proof (induction n)
  case 0
  then show ?case by simp
next
  case (Suc n)
  then have v: "\<And>cs x. parse_value n cs = Some x \<Longrightarrow> parse_value (Suc n) cs = Some x"
    and e: "\<And>cs x. parse_elements n cs = Some x \<Longrightarrow> parse_elements (Suc n) cs = Some x"
    and m: "\<And>cs x. parse_members n cs = Some x \<Longrightarrow> parse_members (Suc n) cs = Some x"
    by blast+
  show ?case
    using value_mono [OF e m] elements_mono [OF v e] members_mono [OF v m] by blast
qed

lemma climb:
  assumes "\<And>k. P k \<Longrightarrow> P (Suc k)" and "n \<le> m" and "P n"
  shows "P m"
  using assms(2,3) by (induction rule: dec_induct) (auto intro: assms(1))

lemma fuel_mono:
  assumes "n \<le> m"
  shows "parse_value n cs = Some x \<Longrightarrow> parse_value m cs = Some x"
    and "parse_elements n cs = Some y \<Longrightarrow> parse_elements m cs = Some y"
    and "parse_members n cs = Some z \<Longrightarrow> parse_members m cs = Some z"
proof -
  have v: "parse_value k cs = Some x \<Longrightarrow> parse_value (Suc k) cs = Some x" for k
    using fuel_step [of k] by blast
  have e: "parse_elements k cs = Some y \<Longrightarrow> parse_elements (Suc k) cs = Some y" for k
    using fuel_step [of k] by blast
  have m: "parse_members k cs = Some z \<Longrightarrow> parse_members (Suc k) cs = Some z" for k
    using fuel_step [of k] by blast
  show "parse_value n cs = Some x \<Longrightarrow> parse_value m cs = Some x"
    by (rule climb [where P = "\<lambda>k. parse_value k cs = Some x", OF v assms])
  show "parse_elements n cs = Some y \<Longrightarrow> parse_elements m cs = Some y"
    by (rule climb [where P = "\<lambda>k. parse_elements k cs = Some y", OF e assms])
  show "parse_members n cs = Some z \<Longrightarrow> parse_members m cs = Some z"
    by (rule climb [where P = "\<lambda>k. parse_members k cs = Some z", OF m assms])
qed

lemma skip_ws_le: "length (skip_ws cs) \<le> length cs"
  by (simp add: skip_ws_def length_dropWhile_le)

lemma skip_ws_Cons_lt: "skip_ws r = c # r' \<Longrightarrow> length r' < length r"
  using skip_ws_le [of r] by simp

lemma parse_string_lt: "parse_string cs = Some (s, r) \<Longrightarrow> length r < length cs"
proof (induction "length cs" arbitrary: cs s r rule: less_induct)
  case less
  from less.prems obtain c cs0 where cs: "cs = c # cs0"
    by (cases cs) auto
  note a = less.prems [unfolded cs]
  consider (quote) "c = 0x22" | (esc) "c \<noteq> 0x22" "c = 0x5C"
    | (raw) "c \<noteq> 0x22" "c \<noteq> 0x5C"
    by blast
  then show ?case
  proof cases
    case quote
    with a cs show ?thesis by simp
  next
    case esc
    from esc a obtain e cs' where cs0: "cs0 = e # cs'"
      by (cases cs0) auto
    show ?thesis
    proof (cases "e = 0x75")
      case True
      from esc a cs0 True obtain h1 h2 h3 h4 cs'' where cs': "cs' = h1 # h2 # h3 # h4 # cs''"
        by (auto split: list.splits)
      from esc a cs0 True cs' obtain u where u: "hex4 h1 h2 h3 h4 = Some u"
        by (auto split: option.splits)
      from esc a cs0 True cs' u obtain s' where p: "parse_string cs'' = Some (s', r)"
        by (auto simp: cons_fst_Some)
      have "length cs'' < length cs" by (simp add: cs cs0 cs')
      from less.hyps [OF this p] show ?thesis by (simp add: cs cs0 cs')
    next
      case False
      from esc a cs0 False obtain u where u: "unescape e = Some u"
        by (auto split: option.splits)
      from esc a cs0 False u obtain s' where p: "parse_string cs' = Some (s', r)"
        by (auto simp: cons_fst_Some)
      have "length cs' < length cs" by (simp add: cs cs0)
      from less.hyps [OF this p] show ?thesis by (simp add: cs cs0)
    qed
  next
    case raw
    with a have ge: "\<not> unat c < 0x20" by (auto split: if_splits)
    from raw ge a obtain s' where p: "parse_string cs0 = Some (s', r)"
      by (auto simp: cons_fst_Some)
    have "length cs0 < length cs" by (simp add: cs)
    from less.hyps [OF this p] show ?thesis by (simp add: cs)
  qed
qed

lemma digits1_lt: "digits1 cs = Some (ds, r) \<Longrightarrow> length r < length cs"
proof -
  assume a: "digits1 cs = Some (ds, r)"
  then have ne: "takeWhile is_digit cs \<noteq> []" and r: "r = dropWhile is_digit cs"
    by (auto simp: digits1_def split: if_splits)
  have "length (takeWhile is_digit cs) + length (dropWhile is_digit cs) = length cs"
    by (metis length_append takeWhile_dropWhile_id)
  with ne r show ?thesis by (cases "takeWhile is_digit cs") auto
qed

lemma number_int_lt: "number_int cs = Some (i, r) \<Longrightarrow> length r < length cs"
  by (cases cs) (auto simp: number_int_def dest: digits1_lt split: if_splits)

lemma number_frac_le: "number_frac cs = Some (f, r) \<Longrightarrow> length r \<le> length cs"
  by (cases cs)
     (auto simp: number_frac_def dest!: digits1_lt split: if_splits option.splits)

lemma number_exp_le: "number_exp cs = Some (e, r) \<Longrightarrow> length r \<le> length cs"
  by (cases cs)
     (auto simp: number_exp_def dest!: digits1_lt split: if_splits option.splits list.splits)

lemma parse_number_lt: "parse_number cs = Some (l, r) \<Longrightarrow> length r < length cs"
proof -
  assume a: "parse_number cs = Some (l, r)"
  define cs1 where "cs1 = snd (case cs of c # r \<Rightarrow> if c = 0x2D then ([c], r) else ([], cs) | [] \<Rightarrow> ([], cs))"
  have c1: "length cs1 \<le> length cs" by (cases cs) (auto simp: cs1_def)
  from a obtain i cs2 where i: "number_int cs1 = Some (i, cs2)"
    by (auto simp: parse_number_def cs1_def split: prod.splits option.splits)
  from a i obtain f cs3 where f: "number_frac cs2 = Some (f, cs3)"
    by (auto simp: parse_number_def cs1_def split: prod.splits option.splits)
  from a i f obtain e where e: "number_exp cs3 = Some (e, r)"
    by (auto simp: parse_number_def cs1_def split: prod.splits option.splits)
  from number_int_lt [OF i] number_frac_le [OF f] number_exp_le [OF e] c1
  show ?thesis by simp
qed

text \<open>A value that is no array and no object is parsed the same with any fuel.\<close>

lemma flat_value:
  "c \<noteq> 0x7B \<Longrightarrow> c \<noteq> 0x5B \<Longrightarrow> parse_value (Suc j) (c # r) = parse_value (Suc k) (c # r)"
  by simp

lemma flat_value_lt:
  assumes "c \<noteq> 0x7B" "c \<noteq> 0x5B" "parse_value (Suc k) (c # r0) = Some (v, r)"
  shows "length r < length (c # r0)"
proof -
  consider (str) "c = 0x22"
    | (null) "c \<noteq> 0x22" "starts_with (c # r0) (lit ''null'')"
    | (true) "c \<noteq> 0x22" "\<not> starts_with (c # r0) (lit ''null'')" "starts_with (c # r0) (lit ''true'')"
    | (false) "c \<noteq> 0x22" "\<not> starts_with (c # r0) (lit ''null'')"
        "\<not> starts_with (c # r0) (lit ''true'')" "starts_with (c # r0) (lit ''false'')"
    | (num) "c \<noteq> 0x22" "\<not> starts_with (c # r0) (lit ''null'')"
        "\<not> starts_with (c # r0) (lit ''true'')" "\<not> starts_with (c # r0) (lit ''false'')"
    by blast
  then show ?thesis
  proof cases
    case str
    with assms obtain s where "parse_string r0 = Some (s, r)"
      by (auto split: option.splits)
    from parse_string_lt [OF this] show ?thesis by simp
  next
    case null
    with assms have "r = drop 4 (c # r0)" by simp
    then show ?thesis by simp
  next
    case true
    with assms have "r = drop 4 (c # r0)" by simp
    then show ?thesis by simp
  next
    case false
    with assms have "r = drop 5 (c # r0)" by simp
    then show ?thesis by simp
  next
    case num
    with assms obtain l where "parse_number (c # r0) = Some (l, r)"
      by (auto split: option.splits)
    from parse_number_lt [OF this] show ?thesis .
  qed
qed

lemma enough_value:
  assumes e: "\<And>cs vs r. parse_elements k cs = Some (vs, r) \<Longrightarrow>
         length r < length cs \<and> parse_elements (length cs - length r) cs = Some (vs, r)"
    and m: "\<And>cs kvs r. parse_members k cs = Some (kvs, r) \<Longrightarrow>
         length r < length cs \<and> parse_members (length cs - length r) cs = Some (kvs, r)"
    and a: "parse_value (Suc k) cs = Some (v, r)"
  shows "length r < length cs \<and> parse_value (length cs - length r) cs = Some (v, r)"
proof -
  from a obtain c r0 where cs: "cs = c # r0" by (cases cs) auto
  consider (obj) "c = 0x7B" | (arr) "c \<noteq> 0x7B" "c = 0x5B" | (flat) "c \<noteq> 0x7B" "c \<noteq> 0x5B"
    by blast
  then show ?thesis
  proof cases
    case flat
    have lt: "length r < length cs" using flat_value_lt [OF flat a [unfolded cs]] cs by simp
    then obtain j where j: "length cs - length r = Suc j"
      by (cases "length cs - length r") auto
    have "parse_value (Suc j) cs = Some (v, r)"
      using a flat_value [OF flat, of j r0 k] by (simp only: cs)
    with lt show ?thesis unfolding j by blast
  next
    case obj
    from a cs obj obtain c' r' where sk: "skip_ws r0 = c' # r'"
      by (cases "skip_ws r0") auto
    have r': "length r' < length r0" using sk by (rule skip_ws_Cons_lt)
    show ?thesis
    proof (cases "c' = 0x7D")
      case True
      with a cs obj sk have r: "r = r'" and v: "v = JObj []" by simp_all
      have lt: "length r < length cs" using r r' cs by simp
      then obtain j where j: "length cs - length r = Suc j"
        by (cases "length cs - length r") auto
      have "parse_value (Suc j) cs = Some (v, r)" using cs obj sk True r v by simp
      with lt show ?thesis unfolding j by blast
    next
      case False
      with a cs obj sk obtain kvs where
        p: "parse_members k (c' # r') = Some (kvs, r)" and v: "v = JObj kvs"
        by (auto split: option.splits)
      from m [OF p] have l: "length r < length (c' # r')"
        and q: "parse_members (length (c' # r') - length r) (c' # r') = Some (kvs, r)"
        by simp_all
      have l0: "length (c' # r') \<le> length r0" using skip_ws_le [of r0] sk by simp
      have lt: "length r < length cs" using l l0 cs by simp
      then obtain j where j: "length cs - length r = Suc j"
        by (cases "length cs - length r") auto
      have "length (c' # r') - length r \<le> j" using j l0 cs by simp
      from fuel_mono(3) [OF this q] cs obj sk False v
      have "parse_value (Suc j) cs = Some (v, r)" by (simp del: parse_members.simps)
      with lt show ?thesis unfolding j by blast
    qed
  next
    case arr
    from a cs arr obtain c' r' where sk: "skip_ws r0 = c' # r'"
      by (cases "skip_ws r0") auto
    have r': "length r' < length r0" using sk by (rule skip_ws_Cons_lt)
    show ?thesis
    proof (cases "c' = 0x5D")
      case True
      with a cs arr sk have r: "r = r'" and v: "v = JArr []" by simp_all
      have lt: "length r < length cs" using r r' cs by simp
      then obtain j where j: "length cs - length r = Suc j"
        by (cases "length cs - length r") auto
      have "parse_value (Suc j) cs = Some (v, r)" using cs arr sk True r v by simp
      with lt show ?thesis unfolding j by blast
    next
      case False
      with a cs arr sk obtain vs where
        p: "parse_elements k (c' # r') = Some (vs, r)" and v: "v = JArr vs"
        by (auto split: option.splits)
      from e [OF p] have l: "length r < length (c' # r')"
        and q: "parse_elements (length (c' # r') - length r) (c' # r') = Some (vs, r)"
        by simp_all
      have l0: "length (c' # r') \<le> length r0" using skip_ws_le [of r0] sk by simp
      have lt: "length r < length cs" using l l0 cs by simp
      then obtain j where j: "length cs - length r = Suc j"
        by (cases "length cs - length r") auto
      have "length (c' # r') - length r \<le> j" using j l0 cs by simp
      from fuel_mono(2) [OF this q] cs arr sk False v
      have "parse_value (Suc j) cs = Some (v, r)" by (simp del: parse_elements.simps)
      with lt show ?thesis unfolding j by blast
    qed
  qed
qed

lemma enough_elements:
  assumes pv: "\<And>cs v r. parse_value k cs = Some (v, r) \<Longrightarrow>
         length r < length cs \<and> parse_value (length cs - length r) cs = Some (v, r)"
    and e: "\<And>cs vs r. parse_elements k cs = Some (vs, r) \<Longrightarrow>
         length r < length cs \<and> parse_elements (length cs - length r) cs = Some (vs, r)"
    and a: "parse_elements (Suc k) cs = Some (vs, r)"
  shows "length r < length cs \<and> parse_elements (length cs - length r) cs = Some (vs, r)"
proof -
  from a obtain v r1 where p1: "parse_value k cs = Some (v, r1)"
    by (cases "parse_value k cs") auto
  from pv [OF p1] have l1: "length r1 < length cs"
    and q1: "parse_value (length cs - length r1) cs = Some (v, r1)" by simp_all
  from a p1 obtain c r' where sk: "skip_ws r1 = c # r'"
    by (cases "skip_ws r1") auto
  have l2: "length r' < length r1" using sk by (rule skip_ws_Cons_lt)
  show ?thesis
  proof (cases "c = 0x2C")
    case True
    with a p1 sk obtain vs' where
      p2: "parse_elements k (skip_ws r') = Some (vs', r)" and vs: "vs = v # vs'"
      by (auto simp: cons_fst_Some)
    from e [OF p2] have l3: "length r < length (skip_ws r')"
      and q2: "parse_elements (length (skip_ws r') - length r) (skip_ws r') = Some (vs', r)"
      by simp_all
    have l4: "length (skip_ws r') \<le> length r'" by (rule skip_ws_le)
    have lt: "length r < length cs" using l1 l2 l3 l4 by simp
    then obtain j where j: "length cs - length r = Suc j"
      by (cases "length cs - length r") auto
    have "length cs - length r1 \<le> j" using j l1 l2 l3 l4 by simp
    from fuel_mono(1) [OF this q1] have v1: "parse_value j cs = Some (v, r1)" .
    have "length (skip_ws r') - length r \<le> j" using j l1 l2 l3 l4 by simp
    from fuel_mono(2) [OF this q2] have v2: "parse_elements j (skip_ws r') = Some (vs', r)" .
    have "parse_elements (Suc j) cs = Some (vs, r)"
      using v1 v2 sk True vs by (simp add: cons_fst_def)
    with lt show ?thesis unfolding j by blast
  next
    case False
    with a p1 sk have c: "c = 0x5D" and r: "r = r'" and vs: "vs = [v]"
      by (auto split: if_splits)
    have lt: "length r < length cs" using l1 l2 r by simp
    then obtain j where j: "length cs - length r = Suc j"
      by (cases "length cs - length r") auto
    have "length cs - length r1 \<le> j" using j l1 l2 r by simp
    from fuel_mono(1) [OF this q1] have v1: "parse_value j cs = Some (v, r1)" .
    have "parse_elements (Suc j) cs = Some (vs, r)" using v1 sk c r vs by simp
    with lt show ?thesis unfolding j by blast
  qed
qed

lemma enough_members:
  assumes pv: "\<And>cs v r. parse_value k cs = Some (v, r) \<Longrightarrow>
         length r < length cs \<and> parse_value (length cs - length r) cs = Some (v, r)"
    and m: "\<And>cs kvs r. parse_members k cs = Some (kvs, r) \<Longrightarrow>
         length r < length cs \<and> parse_members (length cs - length r) cs = Some (kvs, r)"
    and a: "parse_members (Suc k) cs = Some (kvs, r)"
  shows "length r < length cs \<and> parse_members (length cs - length r) cs = Some (kvs, r)"
proof -
  from a obtain q r0 where cs: "cs = q # r0" by (cases cs) auto
  from a cs have q: "q = 0x22" by (auto split: if_splits)
  from a cs q obtain key r1 where ps: "parse_string r0 = Some (key, r1)"
    by (cases "parse_string r0") auto
  from parse_string_lt [OF ps] have l0: "length r1 < length r0" .
  from a cs q ps obtain c r2 where sk1: "skip_ws r1 = c # r2"
    by (cases "skip_ws r1") auto
  have l1: "length r2 < length r1" using sk1 by (rule skip_ws_Cons_lt)
  from a cs q ps sk1 have c: "c = 0x3A" by (auto split: if_splits)
  from a cs q ps sk1 c obtain v r3 where p1: "parse_value k (skip_ws r2) = Some (v, r3)"
    by (cases "parse_value k (skip_ws r2)") auto
  from pv [OF p1] have l2: "length r3 < length (skip_ws r2)"
    and q1: "parse_value (length (skip_ws r2) - length r3) (skip_ws r2) = Some (v, r3)"
    by simp_all
  have l2': "length (skip_ws r2) \<le> length r2" by (rule skip_ws_le)
  from a cs q ps sk1 c p1 obtain c' r4 where sk2: "skip_ws r3 = c' # r4"
    by (cases "skip_ws r3") auto
  have l3: "length r4 < length r3" using sk2 by (rule skip_ws_Cons_lt)
  show ?thesis
  proof (cases "c' = 0x2C")
    case True
    with a cs q ps sk1 c p1 sk2 obtain kvs' where
      p2: "parse_members k (skip_ws r4) = Some (kvs', r)" and kvs: "kvs = (key, v) # kvs'"
      by (auto simp: cons_fst_Some)
    from m [OF p2] have l4: "length r < length (skip_ws r4)"
      and q2: "parse_members (length (skip_ws r4) - length r) (skip_ws r4) = Some (kvs', r)"
      by simp_all
    have l4': "length (skip_ws r4) \<le> length r4" by (rule skip_ws_le)
    have lt: "length r < length cs" using cs l0 l1 l2 l2' l3 l4 l4' by simp
    then obtain j where j: "length cs - length r = Suc j"
      by (cases "length cs - length r") auto
    have "length (skip_ws r2) - length r3 \<le> j" using j cs l0 l1 l2 l2' l3 l4 l4' by simp
    from fuel_mono(1) [OF this q1] have v1: "parse_value j (skip_ws r2) = Some (v, r3)" .
    have "length (skip_ws r4) - length r \<le> j" using j cs l0 l1 l2 l2' l3 l4 l4' by simp
    from fuel_mono(3) [OF this q2] have v2: "parse_members j (skip_ws r4) = Some (kvs', r)" .
    have "parse_members (Suc j) cs = Some (kvs, r)"
      using cs q ps sk1 c v1 sk2 True v2 kvs by (simp add: cons_fst_def)
    with lt show ?thesis unfolding j by blast
  next
    case False
    with a cs q ps sk1 c p1 sk2 have c': "c' = 0x7D" and r: "r = r4" and kvs: "kvs = [(key, v)]"
      by (auto split: if_splits)
    have lt: "length r < length cs" using cs l0 l1 l2 l2' l3 r by simp
    then obtain j where j: "length cs - length r = Suc j"
      by (cases "length cs - length r") auto
    have "length (skip_ws r2) - length r3 \<le> j" using j cs l0 l1 l2 l2' l3 r by simp
    from fuel_mono(1) [OF this q1] have v1: "parse_value j (skip_ws r2) = Some (v, r3)" .
    have "parse_members (Suc j) cs = Some (kvs, r)"
      using cs q ps sk1 c v1 sk2 c' r kvs by simp
    with lt show ?thesis unfolding j by blast
  qed
qed

lemma enough_all: "enough n"
proof (induction n)
  case 0
  show ?case by (simp add: enough_def)
next
  case (Suc k)
  then have pv: "\<And>cs v r. parse_value k cs = Some (v, r) \<Longrightarrow>
         length r < length cs \<and> parse_value (length cs - length r) cs = Some (v, r)"
    and e: "\<And>cs vs r. parse_elements k cs = Some (vs, r) \<Longrightarrow>
         length r < length cs \<and> parse_elements (length cs - length r) cs = Some (vs, r)"
    and m: "\<And>cs kvs r. parse_members k cs = Some (kvs, r) \<Longrightarrow>
         length r < length cs \<and> parse_members (length cs - length r) cs = Some (kvs, r)"
    unfolding enough_def by blast+
  show ?case
    unfolding enough_def
    using enough_value [OF e m] enough_elements [OF pv e] enough_members [OF pv m]
    by blast
qed

text \<open>No text needs more fuel than \<open>json_parse\<close> gives it.\<close>

lemma fuel_suffices:
  "parse_value n cs = Some (v, r) \<Longrightarrow> parse_value (Suc (length cs)) cs = Some (v, r)"
proof -
  assume a: "parse_value n cs = Some (v, r)"
  with enough_all [of n] have "parse_value (length cs - length r) cs = Some (v, r)"
    unfolding enough_def by blast
  moreover have "length cs - length r \<le> Suc (length cs)" by simp
  ultimately show ?thesis by (rule fuel_mono(1) [rotated])
qed

lemma json_parse_any_fuel:
  assumes "parse_value n (skip_ws s) = Some (v, r)"
  shows "json_parse s = (if skip_ws r = [] then Some v else None)"
proof -
  from fuel_suffices [OF assms]
  have "parse_value (Suc (length (skip_ws s))) (skip_ws s) = Some (v, r)" .
  moreover have "Suc (length (skip_ws s)) \<le> Suc (length s)" using skip_ws_le [of s] by simp
  ultimately have "parse_value (Suc (length s)) (skip_ws s) = Some (v, r)"
    by (rule fuel_mono(1) [rotated])
  then show ?thesis by (simp add: json_parse_def)
qed

lemma json_parse_fuel:
  "length s < n \<Longrightarrow>
   json_parse s = (case parse_value n (skip_ws s) of
        None \<Rightarrow> None
      | Some (v, r) \<Rightarrow> if skip_ws r = [] then Some v else None)"
proof (cases "parse_value n (skip_ws s)")
  case None
  assume "length s < n"
  then have le: "Suc (length s) \<le> n" by simp
  have "parse_value (Suc (length s)) (skip_ws s) = None"
  proof (cases "parse_value (Suc (length s)) (skip_ws s)")
    case (Some x)
    obtain v r where "x = (v, r)" by (cases x)
    with Some have "parse_value (Suc (length s)) (skip_ws s) = Some (v, r)" by simp
    from fuel_mono(1) [OF le this] None show ?thesis by simp
  qed simp
  with None show ?thesis by (simp add: json_parse_def)
next
  case (Some x)
  obtain v r where "x = (v, r)" by (cases x)
  with Some json_parse_any_fuel [of n s v r] show ?thesis by simp
qed


section \<open>JSON: parsing what was stringified\<close>

lemma unat_unit: "n < 0x10000 \<Longrightarrow> unat (of_nat n :: codeunit) = n"
  by (simp add: unat_of_nat)

lemma hex_digit_unat:
  assumes "n < 16"
  shows "unat (hex_digit n) = (if n < 10 then 0x30 + n else 0x57 + n)"
proof (cases "n < 10")
  case True
  have "unat (of_nat (0x30 + n) :: codeunit) = 0x30 + n"
    by (rule unat_unit) (use assms in simp)
  with True show ?thesis by (simp only: hex_digit_def if_True)
next
  case False
  have "unat (of_nat (0x57 + n) :: codeunit) = 0x57 + n"
    by (rule unat_unit) (use assms in simp)
  with False show ?thesis by (simp only: hex_digit_def if_False)
qed

lemma hex_val_digit: "n < 16 \<Longrightarrow> hex_val (hex_digit n) = Some n"
  by (simp add: hex_val_def hex_digit_unat Let_def)

lemma hex_digits16:
  fixes n :: nat
  shows "n div 0x1000 * 0x1000 + (n div 0x100) mod 0x10 * 0x100 + (n div 0x10) mod 0x10 * 0x10
           + n mod 0x10 = n"
proof -
  have a: "n div 0x10 * 0x10 + n mod 0x10 = n" by simp
  have "n div 0x100 = n div 0x10 div 0x10" by (simp add: div_mult2_eq)
  then have b: "n div 0x100 * 0x10 + (n div 0x10) mod 0x10 = n div 0x10" by simp
  have "n div 0x1000 = n div 0x100 div 0x10" by (simp add: div_mult2_eq)
  then have c: "n div 0x1000 * 0x10 + (n div 0x100) mod 0x10 = n div 0x100" by simp
  from a b c show ?thesis by linarith
qed

lemma hex4_escape:
  "hex4 (hex_digit (unat u div 0x1000)) (hex_digit ((unat u div 0x100) mod 0x10))
        (hex_digit ((unat u div 0x10) mod 0x10)) (hex_digit (unat u mod 0x10)) = Some u"
proof -
  have "unat u div 0x1000 < 16" using unat_unit_lt [of u] by simp
  then show ?thesis
    by (simp add: hex4_def hex_val_digit hex_digits16)
qed

lemma parse_escape: "parse_string (unicode_escape u @ r) = cons_fst u (parse_string r)"
  by (simp add: unicode_escape_def hex4_escape)

lemma surrogate_ge: "is_high u \<or> is_low u \<Longrightarrow> 0xD800 \<le> unat u"
  by (auto simp: is_high_def is_low_def)

lemma parse_raw:
  "u \<noteq> 0x22 \<Longrightarrow> u \<noteq> 0x5C \<Longrightarrow> 0x20 \<le> unat u \<Longrightarrow>
   parse_string (u # r) = cons_fst u (parse_string r)"
  by simp

lemma parse_unit: "parse_string (quote_unit u @ r) = cons_fst u (parse_string r)"
  by (simp add: quote_unit_def parse_escape unescape_def del: parse_string.simps)
     (simp add: unescape_def)


lemma parse_pair:
  assumes "is_high u" "is_low v"
  shows "parse_string (u # v # r) = cons_fst u (cons_fst v (parse_string r))"
proof -
  have "0xD800 \<le> unat u" "0xD800 \<le> unat v"
    using assms by (simp_all add: surrogate_ge)
  then have "u \<noteq> 0x22" "u \<noteq> 0x5C" "0x20 \<le> unat u" "v \<noteq> 0x22" "v \<noteq> 0x5C" "0x20 \<le> unat v"
    by auto
  then show ?thesis by (simp add: parse_raw del: parse_string.simps)
qed

lemma parse_quote: "parse_string (quote_chars s @ 0x22 # rest) = Some (s, rest)"
proof (induction s rule: quote_chars.induct)
  case 1
  then show ?case by simp
next
  case (2 u)
  have "parse_string (quote_unit u @ 0x22 # rest) = cons_fst u (parse_string (0x22 # rest))"
    by (rule parse_unit)
  then show ?case by (simp add: cons_fst_def)
next
  case (3 u v s)
  show ?case
  proof (cases "is_high u \<and> is_low v")
    case True
    then have "parse_string (u # v # quote_chars s @ 0x22 # rest) =
        cons_fst u (cons_fst v (parse_string (quote_chars s @ 0x22 # rest)))"
      by (simp only: parse_pair)
    with True 3(1) show ?thesis by (simp add: cons_fst_def del: parse_string.simps)
  next
    case False
    then have eq: "quote_chars (u # v # s) = quote_unit u @ quote_chars (v # s)"
      by (simp only: quote_chars.simps if_False)
    have "parse_string (quote_unit u @ quote_chars (v # s) @ 0x22 # rest) =
        cons_fst u (parse_string (quote_chars (v # s) @ 0x22 # rest))"
      by (rule parse_unit)
    with 3(2) [OF False] show ?thesis
      by (simp add: eq cons_fst_def del: parse_string.simps quote_chars.simps)
  qed
qed

lemma hex_digit_plain:
  assumes "n < 16"
  shows "hex_digit n \<noteq> 0x0A" "\<not> is_high (hex_digit n)" "\<not> is_low (hex_digit n)"
proof -
  have "0x30 \<le> unat (hex_digit n)" "unat (hex_digit n) < 0x80"
    using assms by (simp_all add: hex_digit_unat)
  then show "hex_digit n \<noteq> 0x0A" "\<not> is_high (hex_digit n)" "\<not> is_low (hex_digit n)"
    by (auto simp: is_high_def is_low_def)
qed

lemma nibbles:
  "unat (u :: codeunit) div 0x1000 < 16" "(unat u div 0x100) mod 0x10 < 16"
  "(unat u div 0x10) mod 0x10 < 16" "unat u mod 0x10 < 16"
  using unat_unit_lt [of u] by simp_all

lemma plain_units [simp]:
  "\<not> is_high 0x5C" "\<not> is_low 0x5C" "\<not> is_high 0x75" "\<not> is_low 0x75"
  "\<not> is_high 0x62" "\<not> is_low 0x62" "\<not> is_high 0x74" "\<not> is_low 0x74"
  "\<not> is_high 0x6E" "\<not> is_low 0x6E" "\<not> is_high 0x66" "\<not> is_low 0x66"
  "\<not> is_high 0x72" "\<not> is_low 0x72" "\<not> is_high 0x22" "\<not> is_low 0x22"
  by (simp_all add: is_high_def is_low_def)

lemma escape_plain: "wf16 (unicode_escape u)" "0x0A \<notin> set (unicode_escape u)"
  using hex_digit_plain [OF nibbles(1), of u] hex_digit_plain [OF nibbles(2), of u]
    hex_digit_plain [OF nibbles(3), of u] hex_digit_plain [OF nibbles(4), of u]
  by (simp_all add: unicode_escape_def)

lemma quote_unit_plain: "wf16 (quote_unit u)" "0x0A \<notin> set (quote_unit u)"
  by (auto simp: quote_unit_def escape_plain)

lemma quote_chars_nl: "0x0A \<notin> set (quote_chars s)"
proof (induction s rule: quote_chars.induct)
  case (3 u v s)
  show ?case
  proof (cases "is_high u \<and> is_low v")
    case True
    then have "0xD800 \<le> unat u" "0xD800 \<le> unat v" by (simp_all add: surrogate_ge)
    then have "u \<noteq> 0x0A" "v \<noteq> 0x0A" by auto
    with True 3(1) show ?thesis by simp
  next
    case False
    then have eq: "quote_chars (u # v # s) = quote_unit u @ quote_chars (v # s)"
      by (simp only: quote_chars.simps if_False)
    with 3(2) [OF False] show ?thesis by (simp add: eq quote_unit_plain del: quote_chars.simps)
  qed
qed (simp_all add: quote_unit_plain)

lemma quote_chars_wf: "wf16 (quote_chars s)"
proof (induction s rule: quote_chars.induct)
  case (3 u v s)
  show ?case
  proof (cases "is_high u \<and> is_low v")
    case True
    with 3(1) show ?thesis by simp
  next
    case False
    then have eq: "quote_chars (u # v # s) = quote_unit u @ quote_chars (v # s)"
      by (simp only: quote_chars.simps if_False)
    show ?thesis
      unfolding eq using 3(2) [OF False] by (intro wf16_append quote_unit_plain)
  qed
qed (simp_all add: quote_unit_plain)

lemma lit_data: "lit ''data: '' = [0x64, 0x61, 0x74, 0x61, 0x3A, 0x20]"
  by (simp add: lit_def)

lemma lit_done: "lit ''[DONE]'' = [0x5B, 0x44, 0x4F, 0x4E, 0x45, 0x5D]"
  by (simp add: lit_def)

lemma lit_data_done: "lit ''data: [DONE]'' = lit ''data: '' @ lit ''[DONE]''"
  by (simp add: lit_def)

lemma stringify_parse:
  "parse_value (Suc (Suc (Suc n))) (stringify_content s @ rest) =
     Some (JObj [(lit ''content'', JStr s)], rest)"
  by (simp add: stringify_content_def quote_json_def skip_ws_def is_ws_def parse_quote)

lemma stringify_head: "stringify_content s = 0x7B # tl (stringify_content s)"
  by (simp add: stringify_content_def)

lemma json_parse_stringify:
  "json_parse (stringify_content s) = Some (JObj [(lit ''content'', JStr s)])"
proof -
  have "2 \<le> length (stringify_content s)"
    by (simp add: stringify_content_def quote_json_def)
  then obtain n where n: "length (stringify_content s) = Suc (Suc n)"
    by (metis Suc_le_D numeral_2_eq_2 Suc_le_mono)
  have sk: "skip_ws (stringify_content s) = stringify_content s"
    by (subst (1 2) stringify_head) (simp add: skip_ws_def is_ws_def)
  have e: "skip_ws [] = []" by (simp add: skip_ws_def)
  show ?thesis
    using stringify_parse [of n s "[]"]
    by (simp add: json_parse_def n sk e del: parse_value.simps)
qed


lemma length_lit_data: "length (lit ''data: '') = 6"
  by (simp add: lit_def)

lemma data_line_step:
  "process_lines ts (data_line f # ls) st =
     process_lines ts ls (set_messages (append_last f) st)"
proof -
  have sw: "starts_with (data_line f) (lit ''data: '')"
    by (simp add: starts_with_def data_line_def)
  have dr: "drop 6 (data_line f) = stringify_content f"
    by (simp add: data_line_def length_lit_data)
  have ne: "stringify_content f \<noteq> lit ''[DONE]''"
    by (subst stringify_head) (simp add: lit_done)
  have ds: "destructure_content (JObj [(lit ''content'', JStr f)]) = Inr (Some (JStr f))"
    by (simp add: destructure_content_def content_property_def)
  show ?thesis
    by (simp add: sw dr ne json_parse_stringify ds concat_operand_def)
qed

lemma sentinel_step: "process_lines ts (lit ''data: [DONE]'' # ls) st = st"
  by (simp add: lit_data_done starts_with_def length_lit_data)

lemma grow_last:
  "messages st = ms @ [m] \<Longrightarrow>
   set_messages (append_last f) st = st\<lparr>messages := ms @ [m\<lparr>content := content m @ f\<rparr>]\<rparr>"
  by (simp add: set_messages_def append_last_def)

lemma data_lines:
  "messages st = ms @ [m] \<Longrightarrow>
   process_lines ts (map data_line fs @ ls) st =
     process_lines ts ls (st\<lparr>messages := ms @ [m\<lparr>content := content m @ concat fs\<rparr>]\<rparr>)"
proof (induction fs arbitrary: st m)
  case Nil
  then have "st\<lparr>messages := ms @ [m]\<rparr> = st" by (cases st) simp
  then show ?case by simp
next
  case (Cons f fs)
  have "process_lines ts (map data_line (f # fs) @ ls) st =
      process_lines ts (map data_line fs @ ls) (st\<lparr>messages := ms @ [m\<lparr>content := content m @ f\<rparr>]\<rparr>)"
    by (simp add: data_line_step grow_last [OF Cons.prems] del: process_lines.simps)
  also have "\<dots> = process_lines ts ls
      (st\<lparr>messages := ms @ [m\<lparr>content := content m @ f @ concat fs\<rparr>]\<rparr>)"
    using Cons.IH [of "st\<lparr>messages := ms @ [m\<lparr>content := content m @ f\<rparr>]\<rparr>" "m\<lparr>content := content m @ f\<rparr>"]
    by simp
  finally show ?case by simp
qed

lemma data_line_not_sentinel: "\<not> is_sentinel (data_line f)"
proof -
  have dr: "drop 6 (data_line f) = stringify_content f"
    by (simp add: data_line_def length_lit_data)
  have ne: "stringify_content f \<noteq> lit ''[DONE]''"
    by (subst stringify_head) (simp add: lit_done)
  show ?thesis by (simp add: is_sentinel_def dr ne)
qed

section \<open>Frames on the wire\<close>

lemma wf16_lit_data: "wf16 (lit ''data: '')"
  by (simp add: lit_def is_high_def is_low_def)

lemma wf16_lit_content: "wf16 (lit ''content'')"
  by (simp add: lit_def is_high_def is_low_def)

lemma wf16_done_text: "wf16 done_text"
  by (simp add: done_text_def lit_def is_high_def is_low_def)

lemma wf16_single: "\<not> is_high u \<Longrightarrow> \<not> is_low u \<Longrightarrow> wf16 [u]"
  by simp

lemma wf16_data_line: "wf16 (data_line f)"
  unfolding data_line_def stringify_content_def quote_json_def
  by (intro wf16_append wf16_lit_data quote_chars_wf wf16_single)
     (simp_all add: is_high_def is_low_def)

lemma wf16_frame_text: "wf16 (frame_text f)"
  unfolding frame_text_def
  by (intro wf16_append wf16_data_line) (simp add: is_high_def is_low_def)

lemma wf16_concat: "\<forall>t\<in>set ts. wf16 t \<Longrightarrow> wf16 (concat ts)"
  by (induction ts) (simp_all add: wf16_append)

lemma encode_concat: "\<forall>t\<in>set ts. wf16 t \<Longrightarrow> encode (concat ts @ tail) = concat (map encode ts) @ encode tail"
  by (induction ts) (simp_all add: encode_append)

lemma concat_frames: "concat (frames fs) @ encode tail = encode (concat (map frame_text fs) @ tail)"
proof -
  have "frame = (\<lambda>f. encode (frame_text f))" by (simp add: fun_eq_iff frame_def)
  then show ?thesis
    using encode_concat [of "map frame_text fs" tail]
    by (simp add: frames_def wf16_frame_text comp_def)
qed

lemma concat_framed: "concat (framed fs) = encode (concat (map frame_text fs) @ done_text)"
  using concat_frames [of fs done_text] by (simp add: framed_def done_frame_def)

lemma data_line_nl: "0x0A \<notin> set (data_line f)"
  by (simp add: data_line_def stringify_content_def quote_json_def quote_chars_nl lit_data)

lemma split_frames:
  "split_nn (concat (map frame_text fs) @ tail) = map data_line fs @ split_nn tail"
  by (induction fs) (simp_all add: frame_text_def split_nn_line data_line_nl del: split_nn.simps)

lemma split_done: "split_nn done_text = [lit ''data: [DONE]'', []]"
proof -
  have "0x0A \<notin> set (lit ''data: [DONE]'')" by (simp add: lit_def)
  from split_nn_line [OF this, of "[]"] show ?thesis by (simp add: done_text_def)
qed

lemma idle_new: "idle new_decoder"
  by (simp add: idle_def new_decoder_def)

lemma decode_wire:
  assumes "wf16 t" "t = [] \<or> hd t = 0x64"
  shows "\<exists>d. decode new_decoder (encode t) = (d, t)"
proof (cases t)
  case Nil
  then show ?thesis by simp
next
  case (Cons u t')
  with assms have u: "u = 0x64" by simp
  have pl: "\<not> is_high (0x64 :: codeunit)" "\<not> is_low (0x64 :: codeunit)"
    by (simp_all add: is_high_def is_low_def)
  have wf: "wf16 t'" using assms(1) Cons u pl by (simp add: wf16_Cons)
  have enc: "encode (0x64 # t') = utf8_cp 0x64 @ encode t'"
    using encode_Cons [OF pl, of t'] by simp
  define d1 where "d1 = new_decoder\<lparr>bom_seen := True\<rparr>"
  have d1: "idle d1" "bom_seen d1" by (simp_all add: d1_def idle_def new_decoder_def)
  have sc: "scalar 0x64" by (simp add: scalar_def)
  have "decode new_decoder (utf8_cp 0x64 @ encode t') =
      (let (d2, o2) = decode d1 (encode t') in (d2, utf16_cp 0x64 @ o2))"
    using decode_scalar [OF sc idle_new, of "encode t'"] by (simp add: d1_def)
  moreover have "decode d1 (encode t') = (d1, t')"
    using decode_encode [OF wf d1, of "[]"] by simp
  ultimately show ?thesis
    using Cons u by (simp add: enc utf16_cp_def)
qed

lemma wire_head: "concat (map frame_text fs) @ done_text \<noteq> [] \<and> hd (concat (map frame_text fs) @ done_text) = 0x64"
  by (cases fs) (simp_all add: done_text_def frame_text_def data_line_def lit_def)

lemma wire_head': "concat (map frame_text fs) = [] \<or> hd (concat (map frame_text fs)) = 0x64"
  by (cases fs) (simp_all add: frame_text_def data_line_def lit_def)

lemma wf16_wire: "wf16 (concat (map frame_text fs))" "wf16 (concat (map frame_text fs) @ done_text)"
  by (simp_all add: wf16_concat wf16_frame_text wf16_append wf16_done_text)

lemma read_all_wire:
  assumes "concat chunks = encode t" "wf16 t" "t = [] \<or> hd t = 0x64"
    and "\<forall>l\<in>set (butlast (butlast (split_nn t))). \<not> is_sentinel l"
  shows "\<exists>d. read_all ts \<lparr>decoder = new_decoder, buffer = [], ui = st\<rparr> chunks =
           \<lparr>decoder = d, buffer = last (split_nn t),
            ui = process_lines ts (butlast (split_nn t)) st\<rparr>"
proof -
  obtain d where d: "decode new_decoder (concat chunks) = (d, t)"
    using decode_wire [OF assms(2,3)] by (auto simp: assms(1))
  define r where "r = \<lparr>decoder = new_decoder, buffer = [], ui = st\<rparr>"
  have r: "split_nn (buffer r) = [buffer r]" "decode (decoder r) (concat chunks) = (d, t)"
    by (simp_all add: r_def d)
  have ns: "\<forall>l\<in>set (butlast (butlast (split_nn (buffer r @ t)))). \<not> is_sentinel l"
    using assms(4) by (simp add: r_def)
  show ?thesis
    unfolding r_def [symmetric] read_all_general [OF r ns] by (simp add: r_def)
qed

lemma read_frames:
  assumes "concat chunks = concat (frames fs)"
  shows "\<exists>d. read_all ts \<lparr>decoder = new_decoder, buffer = [], ui = st\<rparr> chunks =
           \<lparr>decoder = d, buffer = [], ui = process_lines ts (map data_line fs) st\<rparr>"
proof -
  define t where "t = concat (map frame_text fs)"
  have c: "concat chunks = encode t"
    using concat_frames [of fs "[]"] assms(1) by (simp add: t_def)
  have sp: "split_nn t = map data_line fs @ [[]]"
    using split_frames [of fs "[]"] by (simp add: t_def)
  have ns: "\<forall>l\<in>set (butlast (butlast (split_nn t))). \<not> is_sentinel l"
    by (auto simp: sp data_line_not_sentinel butlast_append dest!: in_set_butlastD)
  have hd: "t = [] \<or> hd t = 0x64" using wire_head' [of fs] by (simp add: t_def)
  have wf: "wf16 t" by (simp add: t_def wf16_wire)
  show ?thesis
    using read_all_wire [OF c wf hd ns, of ts st] by (simp add: sp butlast_append)
qed

lemma read_framed:
  assumes "concat chunks = concat (framed fs)"
  shows "\<exists>d. read_all ts \<lparr>decoder = new_decoder, buffer = [], ui = st\<rparr> chunks =
           \<lparr>decoder = d, buffer = [], ui = process_lines ts (map data_line fs) st\<rparr>"
proof -
  define t where "t = concat (map frame_text fs) @ done_text"
  have c: "concat chunks = encode t"
    using concat_framed [of fs] assms(1) by (simp add: t_def)
  have sp: "split_nn t = map data_line fs @ [lit ''data: [DONE]'', []]"
    using split_frames [of fs done_text] by (simp add: t_def split_done)
  have ns: "\<forall>l\<in>set (butlast (butlast (split_nn t))). \<not> is_sentinel l"
    by (auto simp: sp data_line_not_sentinel butlast_append)
  have hd: "t = [] \<or> hd t = 0x64" using wire_head [of fs] by (simp add: t_def)
  have wf: "wf16 t" by (simp add: t_def wf16_wire)
  have pl: "process_lines ts (map data_line fs @ [lit ''data: [DONE]'']) st =
      process_lines ts (map data_line fs) st"
  proof -
    have "\<forall>l\<in>set (map data_line fs). \<not> is_sentinel l"
      by (auto simp: data_line_not_sentinel)
    then show ?thesis
      by (simp add: process_lines_append sentinel_step del: process_lines.simps)
  qed
  show ?thesis
    using read_all_wire [OF c wf hd ns, of ts st] by (simp add: sp butlast_append pl)
qed

lemma grown:
  "messages st = ms @ [m] \<Longrightarrow>
   process_lines ts (map data_line fs) st =
     st\<lparr>messages := ms @ [m\<lparr>content := content m @ concat fs\<rparr>]\<rparr>"
  using data_lines [of st ms m ts fs "[]"] by simp

lemma decode_idle:
  assumes "wf16 t" "t = [] \<or> hd t = 0x64" "idle d"
  shows "\<exists>d'. idle d' \<and> decode d (encode t) = (d', t)"
proof (cases t)
  case Nil
  with assms(3) show ?thesis by simp
next
  case (Cons u t')
  with assms have u: "u = 0x64" by simp
  have pl: "\<not> is_high (0x64 :: codeunit)" "\<not> is_low (0x64 :: codeunit)"
    by (simp_all add: is_high_def is_low_def)
  have wf: "wf16 t'" using assms(1) Cons u pl by (simp add: wf16_Cons)
  have enc: "encode (0x64 # t') = utf8_cp 0x64 @ encode t'"
    using encode_Cons [OF pl, of t'] by simp
  define d1 where "d1 = d\<lparr>bom_seen := True\<rparr>"
  have d1: "idle d1" "bom_seen d1" using assms(3) by (simp_all add: d1_def idle_def)
  have sc: "scalar 0x64" by (simp add: scalar_def)
  have "decode d (utf8_cp 0x64 @ encode t') =
      (let (d2, o2) = decode d1 (encode t') in (d2, utf16_cp 0x64 @ o2))"
    using decode_scalar [OF sc assms(3), of "encode t'"] by (simp add: d1_def)
  moreover have "decode d1 (encode t') = (d1, t')"
    using decode_encode [OF wf d1, of "[]"] by simp
  ultimately have "decode d (encode t) = (d1, t)"
    using Cons u by (simp add: enc utf16_cp_def)
  with d1(1) show ?thesis by blast
qed

lemma read_all_idle:
  assumes "concat chunks = encode t" "wf16 t" "t = [] \<or> hd t = 0x64" "idle d"
    and "\<forall>l\<in>set (butlast (butlast (split_nn t))). \<not> is_sentinel l"
  shows "\<exists>d'. idle d' \<and> read_all ts \<lparr>decoder = d, buffer = [], ui = st\<rparr> chunks =
           \<lparr>decoder = d', buffer = last (split_nn t),
            ui = process_lines ts (butlast (split_nn t)) st\<rparr>"
proof -
  obtain d' where d: "idle d'" "decode d (concat chunks) = (d', t)"
    using decode_idle [OF assms(2,3,4)] by (auto simp: assms(1))
  define r where "r = \<lparr>decoder = d, buffer = [], ui = st\<rparr>"
  have r: "split_nn (buffer r) = [buffer r]" "decode (decoder r) (concat chunks) = (d', t)"
    by (simp_all add: r_def d)
  have ns: "\<forall>l\<in>set (butlast (butlast (split_nn (buffer r @ t)))). \<not> is_sentinel l"
    using assms(5) by (simp add: r_def)
  have "read_all ts \<lparr>decoder = d, buffer = [], ui = st\<rparr> chunks =
           \<lparr>decoder = d', buffer = last (split_nn t),
            ui = process_lines ts (butlast (split_nn t)) st\<rparr>"
    unfolding r_def [symmetric] read_all_general [OF r ns] by (simp add: r_def)
  with d(1) show ?thesis by blast
qed

lemma read_frames_idle:
  assumes "concat chunks = concat (frames fs)" "idle d"
  shows "\<exists>d'. idle d' \<and> read_all ts \<lparr>decoder = d, buffer = [], ui = st\<rparr> chunks =
           \<lparr>decoder = d', buffer = [], ui = process_lines ts (map data_line fs) st\<rparr>"
proof -
  define t where "t = concat (map frame_text fs)"
  have c: "concat chunks = encode t"
    using concat_frames [of fs "[]"] assms(1) by (simp add: t_def)
  have sp: "split_nn t = map data_line fs @ [[]]"
    using split_frames [of fs "[]"] by (simp add: t_def)
  have ns: "\<forall>l\<in>set (butlast (butlast (split_nn t))). \<not> is_sentinel l"
    by (auto simp: sp data_line_not_sentinel butlast_append dest!: in_set_butlastD)
  have hd: "t = [] \<or> hd t = 0x64" using wire_head' [of fs] by (simp add: t_def)
  have wf: "wf16 t" by (simp add: t_def wf16_wire)
  show ?thesis
    using read_all_idle [OF c wf hd assms(2) ns, of ts st] by (simp add: sp butlast_append)
qed

lemma read_framed_idle:
  assumes "concat chunks = concat (framed fs)" "idle d"
  shows "\<exists>d'. idle d' \<and> read_all ts \<lparr>decoder = d, buffer = [], ui = st\<rparr> chunks =
           \<lparr>decoder = d', buffer = [], ui = process_lines ts (map data_line fs) st\<rparr>"
proof -
  define t where "t = concat (map frame_text fs) @ done_text"
  have c: "concat chunks = encode t"
    using concat_framed [of fs] assms(1) by (simp add: t_def)
  have sp: "split_nn t = map data_line fs @ [lit ''data: [DONE]'', []]"
    using split_frames [of fs done_text] by (simp add: t_def split_done)
  have ns: "\<forall>l\<in>set (butlast (butlast (split_nn t))). \<not> is_sentinel l"
    by (auto simp: sp data_line_not_sentinel butlast_append)
  have hd: "t = [] \<or> hd t = 0x64" using wire_head [of fs] by (simp add: t_def)
  have wf: "wf16 t" by (simp add: t_def wf16_wire)
  have pl: "process_lines ts (map data_line fs @ [lit ''data: [DONE]'']) st =
      process_lines ts (map data_line fs) st"
  proof -
    have "\<forall>l\<in>set (map data_line fs). \<not> is_sentinel l"
      by (auto simp: data_line_not_sentinel)
    then show ?thesis
      by (simp add: process_lines_append sentinel_step del: process_lines.simps)
  qed
  show ?thesis
    using read_all_idle [OF c wf hd assms(2) ns, of ts st] by (simp add: sp butlast_append pl)
qed

lemma read_all_append: "read_all ts r (a @ b) = read_all ts (read_all ts r a) b"
  by (simp add: read_all_def)

lemma read_after_sentinel:
  assumes "concat chunks = concat (framed fs)" "concat later = concat (frames gs)"
    and "messages st = ms @ [m]"
  shows "ui (read_all ts \<lparr>decoder = new_decoder, buffer = [], ui = st\<rparr> (chunks @ later)) =
           st\<lparr>messages := ms @ [m\<lparr>content := content m @ concat fs @ concat gs\<rparr>]\<rparr>"
proof -
  obtain d1 where d1: "idle d1"
    and r1: "read_all ts \<lparr>decoder = new_decoder, buffer = [], ui = st\<rparr> chunks =
      \<lparr>decoder = d1, buffer = [], ui = process_lines ts (map data_line fs) st\<rparr>"
    using read_framed_idle [OF assms(1) idle_new, of ts st] by blast
  define st1 where "st1 = st\<lparr>messages := ms @ [m\<lparr>content := content m @ concat fs\<rparr>]\<rparr>"
  have s1: "process_lines ts (map data_line fs) st = st1"
    by (simp add: grown [OF assms(3)] st1_def)
  have m1: "messages st1 = ms @ [m\<lparr>content := content m @ concat fs\<rparr>]"
    by (simp add: st1_def)
  obtain d2 where
    r2: "read_all ts \<lparr>decoder = d1, buffer = [], ui = st1\<rparr> later =
      \<lparr>decoder = d2, buffer = [], ui = process_lines ts (map data_line gs) st1\<rparr>"
    using read_frames_idle [OF assms(2) d1, of ts st1] by blast
  have s2: "process_lines ts (map data_line gs) st1 =
      st1\<lparr>messages := ms @ [m\<lparr>content := content m @ concat fs\<rparr>\<lparr>content :=
         content (m\<lparr>content := content m @ concat fs\<rparr>) @ concat gs\<rparr>]\<rparr>"
    by (rule grown [OF m1])
  have "ui (read_all ts \<lparr>decoder = new_decoder, buffer = [], ui = st\<rparr> (chunks @ later)) =
      process_lines ts (map data_line gs) st1"
    by (simp only: read_all_append r1 s1 r2 reader.simps)
  also have "\<dots> = st\<lparr>messages := ms @ [m\<lparr>content := content m @ concat fs @ concat gs\<rparr>]\<rparr>"
    unfolding s2 by (simp add: st1_def)
  finally show ?thesis .
qed

lemma split_past_sentinel:
  "split_nn (concat (map frame_text fs) @ done_text @ concat (map frame_text gs)) =
     map data_line fs @ lit ''data: [DONE]'' # map data_line gs @ [[]]"
proof -
  have nl: "0x0A \<notin> set (lit ''data: [DONE]'')" by (simp add: lit_def)
  have "split_nn (done_text @ concat (map frame_text gs)) =
      lit ''data: [DONE]'' # split_nn (concat (map frame_text gs))"
    using split_nn_line [OF nl, of "concat (map frame_text gs)"] by (simp add: done_text_def)
  moreover have "split_nn (concat (map frame_text gs)) = map data_line gs @ [[]]"
    using split_frames [of gs "[]"] by simp
  ultimately show ?thesis
    using split_frames [of fs "done_text @ concat (map frame_text gs)"] by simp
qed

lemma read_past_sentinel:
  "ui (read_all ts \<lparr>decoder = new_decoder, buffer = [], ui = st\<rparr>
         [concat (framed fs @ frames gs)]) =
     process_lines ts (map data_line fs) st"
proof -
  define t where "t = concat (map frame_text fs) @ done_text @ concat (map frame_text gs)"
  have wf: "wf16 t"
    unfolding t_def by (intro wf16_append wf16_wire(1) wf16_done_text)
  have "hd ((concat (map frame_text fs) @ done_text) @ concat (map frame_text gs)) =
      hd (concat (map frame_text fs) @ done_text)"
    using wire_head [of fs] by (intro hd_append2) simp
  then have hd: "t = [] \<or> hd t = 0x64"
    using wire_head [of fs] by (simp add: t_def)
  have "concat (framed fs @ frames gs) = encode (concat (map frame_text fs) @ done_text) @
      encode (concat (map frame_text gs))"
    using concat_frames [of gs "[]"] by (simp add: concat_framed)
  also have "\<dots> = encode t"
    using encode_append [OF wf16_wire(2), of fs "concat (map frame_text gs)"] by (simp add: t_def)
  finally have c: "concat (framed fs @ frames gs) = encode t" .
  obtain d where d: "decode new_decoder (encode t) = (d, t)"
    using decode_wire [OF wf hd] by blast
  have sp: "butlast (split_nn t) = map data_line fs @ lit ''data: [DONE]'' # map data_line gs"
    by (simp add: t_def split_past_sentinel butlast_append)
  have ns: "\<forall>l\<in>set (map data_line fs). \<not> is_sentinel l"
    by (auto simp: data_line_not_sentinel)
  have "ui (read_all ts \<lparr>decoder = new_decoder, buffer = [], ui = st\<rparr>
         [concat (framed fs @ frames gs)]) =
      process_lines ts (map data_line fs @ lit ''data: [DONE]'' # map data_line gs) st"
    unfolding c by (simp add: read_all_def read_chunk_def d sp del: process_lines.simps)
  also have "\<dots> = process_lines ts (map data_line fs) st"
    by (simp add: process_lines_append [OF ns] sentinel_step del: process_lines.simps)
  finally show ?thesis .
qed

section \<open>The reassembler on framed streams\<close>

lemma accepted_stream:
  assumes "filter (\<lambda>c. \<not> is_js_space c) (input st) \<noteq> []" "\<not> isLoading st"
  shows "handleSubmit ts st (Response 200 (Some (chunks, e))) =
     (let st1 = st\<lparr>messages := messages st @ [\<lparr>role = User, content = input st\<rparr>, assistant_message],
                   input := [], isLoading := True\<rparr>;
          st2 = ui (read_all ts \<lparr>decoder = new_decoder, buffer = [], ui = st1\<rparr> chunks)
      in (case e of
            Eof \<Rightarrow> st2
          | ReadFails \<Rightarrow> toast_error ''Something went wrong.'' (console_error ''Chat error:'' st2))
         \<lparr>isLoading := False\<rparr>)"
  using assms
  by (cases st)
     (simp add: handleSubmit_def receive_def set_messages_def Let_def split: ending.splits)

lemma typed_hi_accepted:
  "filter (\<lambda>c. \<not> is_js_space c) (input typed_hi) \<noteq> []" "\<not> isLoading typed_hi"
  by (simp_all add: typed_hi_def lit_def is_js_space_def)

lemma handleSubmit_frames:
  assumes "concat chunks = concat (frames fs) \<or> concat chunks = concat (framed fs)"
  shows "handleSubmit ts st (Response 200 (Some (chunks, e))) =
     (if filter (\<lambda>c. \<not> is_js_space c) (input st) = [] \<or> isLoading st then st
      else
        (case e of
           Eof \<Rightarrow> st\<lparr>messages := messages st @
                  [\<lparr>role = User, content = input st\<rparr>, \<lparr>role = Assistant, content = concat fs\<rparr>],
                  input := [], isLoading := True\<rparr>
         | ReadFails \<Rightarrow>
             toast_error ''Something went wrong.'' (console_error ''Chat error:''
               (st\<lparr>messages := messages st @
                  [\<lparr>role = User, content = input st\<rparr>, \<lparr>role = Assistant, content = concat fs\<rparr>],
                  input := [], isLoading := True\<rparr>)))
        \<lparr>isLoading := False\<rparr>)"
proof (cases "filter (\<lambda>c. \<not> is_js_space c) (input st) = [] \<or> isLoading st")
  case True
  then show ?thesis by (auto simp: handleSubmit_def)
next
  case False
  then have acc: "filter (\<lambda>c. \<not> is_js_space c) (input st) \<noteq> []" "\<not> isLoading st" by simp_all
  define st1 where "st1 = st\<lparr>messages := messages st @ [\<lparr>role = User, content = input st\<rparr>, assistant_message],
                   input := [], isLoading := True\<rparr>"
  have m: "messages st1 = (messages st @ [\<lparr>role = User, content = input st\<rparr>]) @ [assistant_message]"
    by (simp add: st1_def)
  obtain d where "read_all ts \<lparr>decoder = new_decoder, buffer = [], ui = st1\<rparr> chunks =
      \<lparr>decoder = d, buffer = [], ui = process_lines ts (map data_line fs) st1\<rparr>"
    using assms read_frames [of chunks fs ts st1] read_framed [of chunks fs ts st1] by auto
  then have "ui (read_all ts \<lparr>decoder = new_decoder, buffer = [], ui = st1\<rparr> chunks) =
      st1\<lparr>messages := (messages st @ [\<lparr>role = User, content = input st\<rparr>]) @
              [assistant_message\<lparr>content := content assistant_message @ concat fs\<rparr>]\<rparr>"
    by (simp add: grown [OF m])
  then show ?thesis
    unfolding accepted_stream [OF acc] st1_def [symmetric]
    using False
    by (cases st)
       (simp add: st1_def assistant_message_def toast_error_def console_error_def
          split: ending.splits)
qed

lemma handleSubmit_after_sentinel:
  assumes "filter (\<lambda>c. \<not> is_js_space c) (input st) \<noteq> []" and "\<not> isLoading st"
    and "concat chunks = concat (framed fs)" and "concat later = concat (frames gs)"
  shows "handleSubmit ts st (Response 200 (Some (chunks @ later, Eof))) =
           st\<lparr>messages := messages st @
                  [\<lparr>role = User, content = input st\<rparr>,
                   \<lparr>role = Assistant, content = concat fs @ concat gs\<rparr>],
               input := [], isLoading := False\<rparr>"
proof -
  define st1 where "st1 = st\<lparr>messages := messages st @ [\<lparr>role = User, content = input st\<rparr>, assistant_message],
                   input := [], isLoading := True\<rparr>"
  have m: "messages st1 = (messages st @ [\<lparr>role = User, content = input st\<rparr>]) @ [assistant_message]"
    by (simp add: st1_def)
  have "ui (read_all ts \<lparr>decoder = new_decoder, buffer = [], ui = st1\<rparr> (chunks @ later)) =
      st1\<lparr>messages := (messages st @ [\<lparr>role = User, content = input st\<rparr>]) @
              [assistant_message\<lparr>content := content assistant_message @ concat fs @ concat gs\<rparr>]\<rparr>"
    by (rule read_after_sentinel [OF assms(3,4) m])
  then show ?thesis
    unfolding accepted_stream [OF assms(1,2)] st1_def [symmetric]
    by (simp add: st1_def assistant_message_def)
qed

lemma handleSubmit_past_sentinel:
  assumes "filter (\<lambda>c. \<not> is_js_space c) (input st) \<noteq> []" and "\<not> isLoading st"
  shows "handleSubmit ts st (Response 200 (Some ([concat (framed fs @ frames gs)], Eof))) =
           st\<lparr>messages := messages st @
                  [\<lparr>role = User, content = input st\<rparr>, \<lparr>role = Assistant, content = concat fs\<rparr>],
               input := [], isLoading := False\<rparr>"
proof -
  define st1 where "st1 = st\<lparr>messages := messages st @ [\<lparr>role = User, content = input st\<rparr>, assistant_message],
                   input := [], isLoading := True\<rparr>"
  have m: "messages st1 = (messages st @ [\<lparr>role = User, content = input st\<rparr>]) @ [assistant_message]"
    by (simp add: st1_def)
  have "ui (read_all ts \<lparr>decoder = new_decoder, buffer = [], ui = st1\<rparr>
         [concat (framed fs @ frames gs)]) =
      st1\<lparr>messages := (messages st @ [\<lparr>role = User, content = input st\<rparr>]) @
              [assistant_message\<lparr>content := content assistant_message @ concat fs\<rparr>]\<rparr>"
    by (simp only: read_past_sentinel grown [OF m])
  then show ?thesis
    unfolding accepted_stream [OF assms(1,2)] st1_def [symmetric]
    by (simp add: st1_def assistant_message_def)
qed

text \<open>
  Claim C1 does not hold as stated: nothing marks the message complete. The component
  keeps no state for it. After the frame of \<open>Hi\<close> and the sentinel frame it ends in the
  very state it reaches when the sentinel frame is missing, and a frame read after the
  sentinel frame is appended to the same message.
\<close>

theorem sentinel_marks_nothing:
  "handleSubmit no_coercion typed_hi (Response 200 (Some (framed [lit ''Hi''], Eof))) =
     \<lparr>messages = [\<lparr>role = User, content = lit ''hi''\<rparr>,
                  \<lparr>role = Assistant, content = lit ''Hi''\<rparr>],
      input = [], isLoading = False, toasts = [], console = []\<rparr>
   \<and> handleSubmit no_coercion typed_hi (Response 200 (Some (frames [lit ''Hi''], Eof))) =
     \<lparr>messages = [\<lparr>role = User, content = lit ''hi''\<rparr>,
                  \<lparr>role = Assistant, content = lit ''Hi''\<rparr>],
      input = [], isLoading = False, toasts = [], console = []\<rparr>
   \<and> handleSubmit no_coercion typed_hi
       (Response 200 (Some (framed [lit ''Hi''] @ frames [lit ''!''], Eof))) =
     \<lparr>messages = [\<lparr>role = User, content = lit ''hi''\<rparr>,
                  \<lparr>role = Assistant, content = lit ''Hi!''\<rparr>],
      input = [], isLoading = False, toasts = [], console = []\<rparr>"
proof -
  have a: "concat (framed [lit ''Hi'']) = concat (frames [lit ''Hi'']) \<or>
      concat (framed [lit ''Hi'']) = concat (framed [lit ''Hi''])" by simp
  have b: "concat (frames [lit ''Hi'']) = concat (frames [lit ''Hi'']) \<or>
      concat (frames [lit ''Hi'']) = concat (framed [lit ''Hi''])" by simp
  have "handleSubmit no_coercion typed_hi (Response 200 (Some (framed [lit ''Hi''], Eof))) =
     \<lparr>messages = [\<lparr>role = User, content = lit ''hi''\<rparr>,
                  \<lparr>role = Assistant, content = lit ''Hi''\<rparr>],
      input = [], isLoading = False, toasts = [], console = []\<rparr>"
    unfolding handleSubmit_frames [OF a] using typed_hi_accepted
    by (simp add: typed_hi_def)
  moreover
  have "handleSubmit no_coercion typed_hi (Response 200 (Some (frames [lit ''Hi''], Eof))) =
     \<lparr>messages = [\<lparr>role = User, content = lit ''hi''\<rparr>,
                  \<lparr>role = Assistant, content = lit ''Hi''\<rparr>],
      input = [], isLoading = False, toasts = [], console = []\<rparr>"
    unfolding handleSubmit_frames [OF b] using typed_hi_accepted
    by (simp add: typed_hi_def)
  moreover
  have "handleSubmit no_coercion typed_hi
       (Response 200 (Some (framed [lit ''Hi''] @ frames [lit ''!''], Eof))) =
     \<lparr>messages = [\<lparr>role = User, content = lit ''hi''\<rparr>,
                  \<lparr>role = Assistant, content = lit ''Hi!''\<rparr>],
      input = [], isLoading = False, toasts = [], console = []\<rparr>"
    using handleSubmit_after_sentinel [OF typed_hi_accepted refl refl, of no_coercion "[lit ''Hi'']" "[lit ''!'']"]
    by (simp add: typed_hi_def lit_def)
  ultimately show ?thesis by (simp only: simp_thms)
qed

text \<open>
  Claim C1, amended. The server frames the fragments \<open>fs\<close> and ends with the sentinel frame;
  the component, after a submit it accepts, reads these chunks to the end of the input.
  The assistant message it appended then holds exactly the concatenation of the
  fragments, whatever characters they contain, with nothing logged or reported. The
  message is not marked complete: the state is the one reached without the sentinel
  frame (the loading flag is cleared at the end of the input either way), and frames
  read after the sentinel frame are appended to the message. The sentinel frame only
  ends the processing of the frames that arrive in the same read.
\<close>

theorem framed_round_trip:
  assumes "filter (\<lambda>c. \<not> is_js_space c) (input st) \<noteq> []" and "\<not> isLoading st"
  shows "handleSubmit ts st (Response 200 (Some (framed fs, Eof))) =
           st\<lparr>messages := messages st @
                  [\<lparr>role = User, content = input st\<rparr>, \<lparr>role = Assistant, content = concat fs\<rparr>],
               input := [], isLoading := False\<rparr>
       \<and> handleSubmit ts st (Response 200 (Some (frames fs, Eof))) =
           handleSubmit ts st (Response 200 (Some (framed fs, Eof)))
       \<and> handleSubmit ts st (Response 200 (Some (framed fs @ frames gs, Eof))) =
           st\<lparr>messages := messages st @
                  [\<lparr>role = User, content = input st\<rparr>,
                   \<lparr>role = Assistant, content = concat fs @ concat gs\<rparr>],
               input := [], isLoading := False\<rparr>
       \<and> handleSubmit ts st (Response 200 (Some ([concat (framed fs @ frames gs)], Eof))) =
           handleSubmit ts st (Response 200 (Some (framed fs, Eof)))"
proof -
  have a: "concat (framed fs) = concat (frames fs) \<or> concat (framed fs) = concat (framed fs)"
    by simp
  have b: "concat (frames fs) = concat (frames fs) \<or> concat (frames fs) = concat (framed fs)"
    by simp
  have one: "handleSubmit ts st (Response 200 (Some (framed fs, Eof))) =
           st\<lparr>messages := messages st @
                  [\<lparr>role = User, content = input st\<rparr>, \<lparr>role = Assistant, content = concat fs\<rparr>],
               input := [], isLoading := False\<rparr>"
    unfolding handleSubmit_frames [OF a] using assms by (cases st) simp
  have two: "handleSubmit ts st (Response 200 (Some (frames fs, Eof))) =
           handleSubmit ts st (Response 200 (Some (framed fs, Eof)))"
    unfolding handleSubmit_frames [OF a] handleSubmit_frames [OF b] ..
  have four: "handleSubmit ts st (Response 200 (Some ([concat (framed fs @ frames gs)], Eof))) =
           handleSubmit ts st (Response 200 (Some (framed fs, Eof)))"
    unfolding one by (rule handleSubmit_past_sentinel [OF assms])
  from one two four show ?thesis
    using handleSubmit_after_sentinel [OF assms refl refl, of ts fs gs] by (simp only: simp_thms)
qed

theorem framed_round_trip_witness:
  "handleSubmit no_coercion typed_hi (Response 200 (Some (framed awkward, Eof))) =
     \<lparr>messages = [\<lparr>role = User, content = lit ''hi''\<rparr>,
                  \<lparr>role = Assistant,
                   content = lit ''Hel'' @ [0x22, 0x0A, 0xD83D, 0xDE00, 0xD83D, 0xE9] @ lit ''lo''\<rparr>],
      input = [], isLoading = False, toasts = [], console = []\<rparr>
   \<and> handleSubmit no_coercion typed_hi (Response 200 (Some (framed awkward @ frames hel_lo, Eof))) =
     \<lparr>messages = [\<lparr>role = User, content = lit ''hi''\<rparr>,
                  \<lparr>role = Assistant,
                   content = lit ''Hel'' @ [0x22, 0x0A, 0xD83D, 0xDE00, 0xD83D, 0xE9] @ lit ''lo''
                     @ lit ''Hello''\<rparr>],
      input = [], isLoading = False, toasts = [], console = []\<rparr>"
  using framed_round_trip [OF typed_hi_accepted, of no_coercion awkward hel_lo]
  by (simp add: typed_hi_def awkward_def hel_lo_def lit_def)

text \<open>
  Claim C2. However the bytes of a framed stream are cut into chunks, also inside a
  character of several bytes or inside a JSON payload, the component ends in the state
  it reaches when the whole stream arrives as one chunk: the same accumulated content,
  and the same flags and reports. The decoder keeps the bytes of an unfinished character
  and the buffer keeps the unfinished frame from one chunk to the next.
\<close>

theorem chunking_invariance:
  assumes "concat chunks = concat (framed fs)"
  shows "handleSubmit ts st (Response 200 (Some (chunks, e))) =
         handleSubmit ts st (Response 200 (Some ([concat (framed fs)], e)))"
proof -
  have a: "concat chunks = concat (frames fs) \<or> concat chunks = concat (framed fs)"
    using assms by simp
  have b: "concat [concat (framed fs)] = concat (frames fs) \<or>
      concat [concat (framed fs)] = concat (framed fs)"
    by simp
  show ?thesis
    unfolding handleSubmit_frames [OF a] handleSubmit_frames [OF b] ..
qed

theorem chunking_invariance_witness:
  "handleSubmit no_coercion typed_hi
     (Response 200 (Some ([take 19 (concat (framed e_acute)), drop 19 (concat (framed e_acute))], Eof))) =
   handleSubmit no_coercion typed_hi (Response 200 (Some ([concat (framed e_acute)], Eof)))"
  using chunking_invariance [of "[take 19 (concat (framed e_acute)), drop 19 (concat (framed e_acute))]" e_acute]
  by simp

lemma split_inside_character:
  "take 19 (concat (framed e_acute)) = encode (lit ''data: '' @ [0x7B, 0x22] @ lit ''content'' @ [0x22, 0x3A, 0x22]) @ [0xC3]"
  by (simp add: e_acute_def framed_def frames_def frame_def frame_text_def data_line_def stringify_content_def
     quote_json_def lit_def quote_unit_def is_high_def is_low_def scalar_of_unit_def utf8_cp_def)

text \<open>
  Claim C3 does not hold as stated. The body below ends after the frames of \<open>Hel\<close> and
  \<open>lo\<close> with no sentinel frame; the component ends in the very state it reaches when the
  sentinel frame follows, so nothing tells the caller that the sentinel was missing.
\<close>

theorem missing_sentinel_not_exposed:
  "handleSubmit no_coercion typed_hi (Response 200 (Some (frames hel_lo, Eof))) =
   handleSubmit no_coercion typed_hi (Response 200 (Some (framed hel_lo, Eof)))"
proof -
  have a: "concat (frames hel_lo) = concat (frames hel_lo) \<or>
      concat (frames hel_lo) = concat (framed hel_lo)" by simp
  have b: "concat (framed hel_lo) = concat (frames hel_lo) \<or>
      concat (framed hel_lo) = concat (framed hel_lo)" by simp
  show ?thesis
    unfolding handleSubmit_frames [OF a] handleSubmit_frames [OF b] ..
qed

text \<open>
  Claim C3, amended. When the input ends after the frames of \<open>fs\<close> and no sentinel
  frame, the component finishes as after a clean completion: the content is the
  concatenation of \<open>fs\<close>, the loading flag is cleared and nothing is reported; a sentinel
  frame after the same bytes changes nothing. What is reported is a read that fails:
  the content received is kept, \<open>Something went wrong.\<close> is shown and the error is logged.
\<close>

theorem end_of_input_without_sentinel:
  assumes "filter (\<lambda>c. \<not> is_js_space c) (input st) \<noteq> []" and "\<not> isLoading st"
    and "concat chunks = concat (frames fs)"
  shows "handleSubmit ts st (Response 200 (Some (chunks, Eof))) =
           st\<lparr>messages := messages st @
                  [\<lparr>role = User, content = input st\<rparr>, \<lparr>role = Assistant, content = concat fs\<rparr>],
               input := [], isLoading := False\<rparr>
       \<and> handleSubmit ts st (Response 200 (Some (chunks @ [done_frame], Eof))) =
           handleSubmit ts st (Response 200 (Some (chunks, Eof)))
       \<and> handleSubmit ts st (Response 200 (Some (chunks, ReadFails))) =
           st\<lparr>messages := messages st @
                  [\<lparr>role = User, content = input st\<rparr>, \<lparr>role = Assistant, content = concat fs\<rparr>],
               input := [], isLoading := False,
               toasts := toasts st @ [''Something went wrong.''],
               console := console st @ [''Chat error:'']\<rparr>"
proof -
  have a: "concat chunks = concat (frames fs) \<or> concat chunks = concat (framed fs)"
    using assms(3) by simp
  have b: "concat (chunks @ [done_frame]) = concat (frames fs) \<or>
      concat (chunks @ [done_frame]) = concat (framed fs)"
    using assms(3) by (simp add: framed_def)
  show ?thesis
    unfolding handleSubmit_frames [OF a] handleSubmit_frames [OF b]
    using assms(1,2)
    by (cases st) (simp add: toast_error_def console_error_def)
qed

theorem end_of_input_without_sentinel_witness:
  "handleSubmit no_coercion typed_hi (Response 200 (Some (frames hel_lo, Eof))) =
     \<lparr>messages = [\<lparr>role = User, content = lit ''hi''\<rparr>,
                  \<lparr>role = Assistant, content = lit ''Hello''\<rparr>],
      input = [], isLoading = False, toasts = [], console = []\<rparr>
   \<and> handleSubmit no_coercion typed_hi (Response 200 (Some (frames hel_lo @ [done_frame], Eof))) =
       handleSubmit no_coercion typed_hi (Response 200 (Some (frames hel_lo, Eof)))
   \<and> handleSubmit no_coercion typed_hi (Response 200 (Some (frames hel_lo, ReadFails))) =
     \<lparr>messages = [\<lparr>role = User, content = lit ''hi''\<rparr>,
                  \<lparr>role = Assistant, content = lit ''Hello''\<rparr>],
      input = [], isLoading = False, toasts = [''Something went wrong.''],
      console = [''Chat error:'']\<rparr>"
  using end_of_input_without_sentinel [OF typed_hi_accepted, of "frames hel_lo" hel_lo no_coercion]
  by (simp add: typed_hi_def hel_lo_def lit_def)

section \<open>Payloads without \<open>content\<close>\<close>

lemma parse_done: "json_parse (lit ''[DONE]'') = None"
  by (simp add: json_parse_def lit_def skip_ws_def is_ws_def starts_with_def parse_number_def
        number_int_def digits1_def is_digit_def)

lemma parse_null: "json_parse (lit ''null'') = Some JNull"
  by (simp add: json_parse_def lit_def skip_ws_def is_ws_def starts_with_def)

lemma parse_empty_object: "json_parse (lit ''{}'') = Some (JObj [])"
  by (simp add: json_parse_def lit_def skip_ws_def is_ws_def starts_with_def)

lemma prefixed_line:
  "process_lines ts ((lit ''data: '' @ data) # ls) st =
     (if data = lit ''[DONE]'' then st
      else
        (case json_parse data of
           None \<Rightarrow> process_lines ts ls (console_error ''Error parsing JSON chunk'' st)
         | Some v \<Rightarrow>
            (case destructure_content v of
               Inl e \<Rightarrow> process_lines ts ls (console_error ''Error parsing JSON chunk'' st)
             | Inr c \<Rightarrow>
                process_lines ts ls (set_messages (append_last (concat_operand ts c)) st))))"
  by (simp add: starts_with_def length_lit_data)

lemma null_line:
  "process_lines ts [lit ''data: null''] st = console_error ''Error parsing JSON chunk'' st"
proof -
  have l: "lit ''data: null'' = lit ''data: '' @ lit ''null''" by (simp add: lit_def)
  have ne: "lit ''null'' \<noteq> lit ''[DONE]''" by (simp add: lit_def)
  show ?thesis
    unfolding l prefixed_line by (simp add: ne parse_null destructure_content_def)
qed

lemma process_lines_stops:
  "\<exists>l\<in>set ls. is_sentinel l \<Longrightarrow> process_lines ts (ls @ ls') st = process_lines ts ls st"
  by (induction ls arbitrary: st)
     (auto simp: is_sentinel_def Let_def split: option.splits sum.splits)

lemma sentinel_line: "is_sentinel (lit ''data: [DONE]'')"
  by (simp add: is_sentinel_def lit_data_done starts_with_def length_lit_data)

text \<open>
  Claim C10 does not hold as stated. The payload \<open>null\<close> parses and has no \<open>content\<close>
  field, but destructuring \<open>null\<close> throws inside the \<open>try\<close>: the error is logged and
  the content stays as it was. And the frame \<open>data: {}\<close> that the same read completes
  after the sentinel frame is never looked at: the loop has stopped at the sentinel
  frame, and the content stays as it was.
\<close>

theorem payload_without_content_not_appended:
  "json_parse (lit ''null'') = Some JNull \<and> content_property JNull = None \<and>
   process_lines no_coercion [lit ''data: null''] waiting =
     waiting\<lparr>console := [''Error parsing JSON chunk'']\<rparr> \<and>
   json_parse (lit ''{}'') = Some (JObj []) \<and> content_property (JObj []) = None \<and>
   process_lines no_coercion [lit ''data: [DONE]'', lit ''data: {}''] waiting = waiting"
  by (simp add: parse_null parse_empty_object content_property_def null_line sentinel_step
        console_error_def waiting_def del: process_lines.simps)

text \<open>
  Claim C10, amended. Take a frame whose payload parses to a JSON value other than
  \<open>null\<close> that has no \<open>content\<close> property (an object without that key, an array, a
  string, a number, a boolean), among the frames that one read completes. When no
  sentinel frame precedes it in that read, the component appends the string \<open>undefined\<close>
  to the content of the open message, and goes on with the frames after it. When a
  sentinel frame precedes it in that read, the frame is skipped with the rest of the
  read.
\<close>

theorem missing_content_appends_undefined:
  assumes "json_parse data = Some v" and "v \<noteq> JNull" and "content_property v = None"
  shows "((\<forall>l\<in>set before. \<not> is_sentinel l) \<longrightarrow>
          messages (process_lines ts before st) = ms @ [m] \<longrightarrow>
          process_lines ts (before @ (lit ''data: '' @ data) # after) st =
            process_lines ts after
              ((process_lines ts before st)
                 \<lparr>messages := ms @ [m\<lparr>content := content m @ lit ''undefined''\<rparr>]\<rparr>))
       \<and> ((\<exists>l\<in>set before. is_sentinel l) \<longrightarrow>
          process_lines ts (before @ (lit ''data: '' @ data) # after) st =
            process_lines ts before st)"
proof (intro conjI impI)
  assume ns: "\<forall>l\<in>set before. \<not> is_sentinel l"
    and m: "messages (process_lines ts before st) = ms @ [m]"
  have ne: "data \<noteq> lit ''[DONE]''" using assms(1) parse_done by auto
  have d: "destructure_content v = Inr None"
    using assms(2,3) by (cases v) (simp_all add: destructure_content_def)
  have "process_lines ts (before @ (lit ''data: '' @ data) # after) st =
      process_lines ts ((lit ''data: '' @ data) # after) (process_lines ts before st)"
    using ns by (rule process_lines_append)
  also have "\<dots> = process_lines ts after
      ((process_lines ts before st)\<lparr>messages := ms @ [m\<lparr>content := content m @ lit ''undefined''\<rparr>]\<rparr>)"
    unfolding prefixed_line
    by (simp add: ne assms(1) d concat_operand_def grow_last [OF m])
  finally show "process_lines ts (before @ (lit ''data: '' @ data) # after) st =
      process_lines ts after
        ((process_lines ts before st)\<lparr>messages := ms @ [m\<lparr>content := content m @ lit ''undefined''\<rparr>]\<rparr>)" .
next
  assume "\<exists>l\<in>set before. is_sentinel l"
  then show "process_lines ts (before @ (lit ''data: '' @ data) # after) st =
      process_lines ts before st"
    by (rule process_lines_stops)
qed

theorem missing_content_appends_undefined_witness:
  "process_lines no_coercion [lit ''data: {}'', lit ''data: [DONE]'', lit ''data: {}''] waiting =
     waiting\<lparr>messages := [\<lparr>role = User, content = lit ''hi''\<rparr>,
                           \<lparr>role = Assistant, content = lit ''Helundefined''\<rparr>]\<rparr>
   \<and> process_lines no_coercion [lit ''data: [DONE]'', lit ''data: {}''] waiting = waiting"
proof -
  have v: "JObj [] \<noteq> JNull" "content_property (JObj []) = None"
    by (simp_all add: content_property_def)
  have l: "lit ''data: {}'' = lit ''data: '' @ lit ''{}''" by (simp add: lit_def)
  have m: "messages (process_lines no_coercion [] waiting) =
      [\<lparr>role = User, content = lit ''hi''\<rparr>] @ [\<lparr>role = Assistant, content = lit ''Hel''\<rparr>]"
    by (simp add: waiting_def)
  have u: "lit ''Hel'' @ lit ''undefined'' = lit ''Helundefined''" by (simp add: lit_def)
  note t = missing_content_appends_undefined [OF parse_empty_object v, of _ no_coercion waiting]
  have a: "process_lines no_coercion ([] @ (lit ''data: '' @ lit ''{}'') # [lit ''data: [DONE]'', lit ''data: {}'']) waiting =
      process_lines no_coercion [lit ''data: [DONE]'', lit ''data: {}'']
        ((process_lines no_coercion [] waiting)
           \<lparr>messages := [\<lparr>role = User, content = lit ''hi''\<rparr>] @
              [\<lparr>role = Assistant, content = lit ''Hel''\<rparr>\<lparr>content := content \<lparr>role = Assistant, content = lit ''Hel''\<rparr> @ lit ''undefined''\<rparr>]\<rparr>)"
    using t [of "[]"] m by simp
  have b: "process_lines no_coercion ([lit ''data: [DONE]''] @ (lit ''data: '' @ lit ''{}'') # []) waiting =
      process_lines no_coercion [lit ''data: [DONE]''] waiting"
    using t [of "[lit ''data: [DONE]'']"] sentinel_line by simp
  show ?thesis
    using a b by (simp add: l [symmetric] sentinel_step u del: process_lines.simps(2))
qed

section \<open>Validation and dispatch\<close>

lemma providers_differ:
  "lit ''anthropic'' \<noteq> lit ''openai''" "lit ''google'' \<noteq> lit ''openai''"
  "lit ''google'' \<noteq> lit ''anthropic''" "lit ''mistral'' \<noteq> lit ''openai''"
  "lit ''mistral'' \<noteq> lit ''anthropic''" "lit ''mistral'' \<noteq> lit ''google''"
  by (simp_all add: lit_def)

text \<open>
  Claim C4 does not hold as stated. With an empty list of messages the endpoint opens
  the stream and the streaming operation calls OpenAI with no message; the blocking
  operation does the same. Neither fails before dispatch.
\<close>

theorem empty_messages_dispatched:
  "POST greeter \<lparr>userId = Some (lit ''user_1''), body = Some (Body (Messages []) None None)\<rparr> =
     ([OpenAI_create (lit ''gpt-3.5-turbo'') [] 1024 default_temperature True],
      EventStream (framed [lit ''H'', lit ''i'']) None)
   \<and> generateChatResponse greeter [] (lit ''openai'') no_options =
     ([OpenAI_create (lit ''gpt-3.5-turbo'') [] 1024 default_temperature False], Inr (lit ''Hi''))"
  by (simp add: POST_def streamChatResponse_def generateChatResponse_def greeter_def
        no_options_def model_or_def maxTokens_of_def temperature_of_def openai_yields_def
        first_choice_def)
     (simp add: lit_def)

text \<open>
  Claim C4, amended. For an authenticated request whose \<open>messages\<close> is missing or is
  not an array, the endpoint answers with status 400 and \<open>Messages array is required\<close>,
  and no provider is called. An empty array passes that check: the streaming operation
  under the endpoint and the blocking operation call OpenAI or Anthropic with an empty
  list of messages. The two operations check nothing themselves.
\<close>

theorem messages_validation:
  assumes "uid \<noteq> []" and "msgs = Undefined \<or> msgs = NonArray"
  shows "POST up \<lparr>userId = Some uid, body = Some (Body msgs prov mdl)\<rparr> =
           ([], JsonError 400 ''Messages array is required'')
       \<and> fst (POST up \<lparr>userId = Some uid, body = Some (Body (Messages []) None mdl)\<rparr>) =
           [OpenAI_create (model_or \<lparr>model = mdl, maxTokens = None, temperature = None\<rparr>
              (lit ''gpt-3.5-turbo'')) [] 1024 default_temperature True]
       \<and> fst (POST up \<lparr>userId = Some uid,
                        body = Some (Body (Messages []) (Some (lit ''anthropic'')) mdl)\<rparr>) =
           [Anthropic_stream (model_or \<lparr>model = mdl, maxTokens = None, temperature = None\<rparr>
              (lit ''claude-3-sonnet-20240229'')) 1024 None []]
       \<and> fst (generateChatResponse up [] (lit ''openai'') opts) =
           [OpenAI_create (model_or opts (lit ''gpt-3.5-turbo'')) [] (maxTokens_of opts)
              (temperature_of opts) False]
       \<and> fst (generateChatResponse up [] (lit ''anthropic'') opts) =
           [Anthropic_create (model_or opts (lit ''claude-3-sonnet-20240229'')) (maxTokens_of opts)
              None []]"
  using assms
  by (auto simp: POST_def streamChatResponse_def generateChatResponse_def providers_differ
        maxTokens_of_def temperature_of_def systemMessage_def otherMessages_def Let_def
        split: sum.splits stream.splits prod.splits)

theorem messages_validation_witness:
  "POST greeter \<lparr>userId = Some (lit ''user_1''), body = Some (Body Undefined None None)\<rparr> =
           ([], JsonError 400 ''Messages array is required'')
   \<and> fst (POST greeter \<lparr>userId = Some (lit ''user_1''), body = Some (Body (Messages []) None None)\<rparr>) =
           [OpenAI_create (lit ''gpt-3.5-turbo'') [] 1024 default_temperature True]"
  using messages_validation [of "lit ''user_1''" Undefined greeter None None no_options]
  by (simp add: model_or_def lit_def)

text \<open>
  Claim C5 does not hold as stated. For the provider \<open>mistral\<close> the endpoint has already
  answered with the event stream when the generator throws: the response is that
  stream, errored before any frame, not a structured error response.
\<close>

theorem unknown_provider_opens_stream:
  "POST greeter \<lparr>userId = Some (lit ''user_1''),
                  body = Some (Body (Messages says_hi) (Some (lit ''mistral'')) None)\<rparr> =
     ([], EventStream [] (Some (Error (lit ''Unsupported AI provider: mistral''))))"
  by (simp add: POST_def streamChatResponse_def providers_differ frames_def)
     (simp add: lit_def)

text \<open>
  Claim C5, amended. For a provider that is none of \<open>openai\<close>, \<open>anthropic\<close>, \<open>google\<close>,
  both operations throw an \<open>Error\<close> whose message is \<open>Unsupported AI provider: \<close> and
  the provider given, and no provider is called. The endpoint answers an authenticated
  request with the event stream, which is errored with that error before any frame,
  the sentinel frame included.
\<close>

theorem unsupported_provider:
  assumes "p \<noteq> lit ''openai''" and "p \<noteq> lit ''anthropic''" and "p \<noteq> lit ''google''"
    and "uid \<noteq> []"
  shows "POST up \<lparr>userId = Some uid, body = Some (Body (Messages ms) (Some p) mdl)\<rparr> =
           ([], EventStream [] (Some (Error (lit ''Unsupported AI provider: '' @ p))))
       \<and> streamChatResponse up ms p opts =
           ([], [], Some (Error (lit ''Unsupported AI provider: '' @ p)))
       \<and> generateChatResponse up ms p opts =
           ([], Inl (Error (lit ''Unsupported AI provider: '' @ p)))"
  using assms
  by (simp add: POST_def streamChatResponse_def generateChatResponse_def frames_def)

theorem unsupported_provider_witness:
  "streamChatResponse greeter says_hi (lit ''mistral'') no_options =
           ([], [], Some (Error (lit ''Unsupported AI provider: mistral'')))
   \<and> generateChatResponse greeter says_hi (lit ''mistral'') no_options =
           ([], Inl (Error (lit ''Unsupported AI provider: mistral'')))"
  using unsupported_provider [OF providers_differ(4,5,6), of "lit ''user_1''" greeter says_hi None no_options]
  by (simp add: lit_def)

section \<open>The framer and empty fragments\<close>

lemma frame_empty:
  "frame [] = [0x64, 0x61, 0x74, 0x61, 0x3A, 0x20, 0x7B, 0x22, 0x63, 0x6F, 0x6E, 0x74, 0x65, 0x6E,
               0x74, 0x22, 0x3A, 0x22, 0x22, 0x7D, 0x0A, 0x0A]"
  by (simp add: frame_def frame_text_def data_line_def stringify_content_def quote_json_def
        lit_def quote_unit_def is_high_def is_low_def scalar_of_unit_def utf8_cp_def)

text \<open>
  Claim C7 does not hold as stated. Anthropic streams an empty text delta, the generator
  yields it, and the framer emits a frame for it: \<open>data: {"content":""}\<close> and a blank
  line, before the sentinel frame.
\<close>

theorem empty_fragment_is_framed:
  "POST empty_delta \<lparr>userId = Some (lit ''user_1''),
                      body = Some (Body (Messages says_hi) (Some (lit ''anthropic'')) None)\<rparr> =
     ([Anthropic_stream (lit ''claude-3-sonnet-20240229'') 1024 None says_hi],
      EventStream [frame [], done_frame] None)
   \<and> frame [] = [0x64, 0x61, 0x74, 0x61, 0x3A, 0x20, 0x7B, 0x22, 0x63, 0x6F, 0x6E, 0x74, 0x65, 0x6E,
                 0x74, 0x22, 0x3A, 0x22, 0x22, 0x7D, 0x0A, 0x0A]"
proof -
  have "POST empty_delta \<lparr>userId = Some (lit ''user_1''),
                      body = Some (Body (Messages says_hi) (Some (lit ''anthropic'')) None)\<rparr> =
     ([Anthropic_stream (lit ''claude-3-sonnet-20240229'') 1024 None says_hi],
      EventStream [frame [], done_frame] None)"
    by (simp add: POST_def streamChatResponse_def providers_differ empty_delta_def greeter_def
          model_or_def maxTokens_of_def systemMessage_def otherMessages_def says_hi_def
          anthropic_yields_def framed_def frames_def)
       (simp add: lit_def)
  then show ?thesis by (simp only: frame_empty simp_thms)
qed

lemma frame_nonempty: "frame f \<noteq> []"
proof -
  have pl: "\<not> is_high (0x64 :: codeunit)" "\<not> is_low (0x64 :: codeunit)"
    by (simp_all add: is_high_def is_low_def)
  have "frame_text f = 0x64 # tl (frame_text f)"
    by (simp add: frame_text_def data_line_def lit_def)
  then have "frame f = utf8_cp 0x64 @ encode (tl (frame_text f))"
    using encode_Cons [OF pl, of "tl (frame_text f)"] by (simp add: frame_def)
  then show ?thesis by (simp add: utf8_cp_def)
qed

text \<open>
  Claim C7, amended. The framer emits exactly one frame for every fragment the
  generator yields, the empty string included, in the order of the fragments, and the
  sentinel frame after them when the generator returns: a frame is \<open>data: \<close>, the JSON
  object with the fragment as \<open>content\<close>, and a blank line. No frame is empty; the frame
  of the empty string is \<open>data: {"content":""}\<close> with its blank line.
\<close>

theorem every_fragment_framed:
  assumes "uid \<noteq> []"
    and "streamChatResponse up ms (case prov of None \<Rightarrow> lit ''openai'' | Some p \<Rightarrow> p)
           \<lparr>model = mdl, maxTokens = None, temperature = None\<rparr> = (calls, fs, thrown)"
  shows "POST up \<lparr>userId = Some uid, body = Some (Body (Messages ms) prov mdl)\<rparr> =
           (calls,
            EventStream (map frame fs @ (case thrown of None \<Rightarrow> [done_frame] | Some e \<Rightarrow> []))
              thrown)
       \<and> frame f = encode (lit ''data: '' @ stringify_content f @ [0x0A, 0x0A])
       \<and> frame f \<noteq> []
       \<and> frame [] = [0x64, 0x61, 0x74, 0x61, 0x3A, 0x20, 0x7B, 0x22, 0x63, 0x6F, 0x6E, 0x74, 0x65,
                     0x6E, 0x74, 0x22, 0x3A, 0x22, 0x22, 0x7D, 0x0A, 0x0A]"
proof -
  have "POST up \<lparr>userId = Some uid, body = Some (Body (Messages ms) prov mdl)\<rparr> =
           (calls,
            EventStream (map frame fs @ (case thrown of None \<Rightarrow> [done_frame] | Some e \<Rightarrow> []))
              thrown)"
    using assms by (simp add: POST_def framed_def frames_def split: option.splits)
  moreover have "frame f = encode (lit ''data: '' @ stringify_content f @ [0x0A, 0x0A])"
    by (simp add: frame_def frame_text_def data_line_def)
  ultimately show ?thesis
    using frame_nonempty [of f] frame_empty by (simp only: simp_thms)
qed

theorem every_fragment_framed_witness:
  "POST greeter \<lparr>userId = Some (lit ''user_1''), body = Some (Body (Messages says_hi) None None)\<rparr> =
     ([OpenAI_create (lit ''gpt-3.5-turbo'') says_hi 1024 default_temperature True],
      EventStream [frame (lit ''H''), frame (lit ''i''), done_frame] None)"
proof -
  have u: "lit ''user_1'' \<noteq> []" by (simp add: lit_def)
  have s: "streamChatResponse greeter says_hi (case None of None \<Rightarrow> lit ''openai'' | Some p \<Rightarrow> p)
           \<lparr>model = None, maxTokens = None, temperature = None\<rparr> =
      ([OpenAI_create (lit ''gpt-3.5-turbo'') says_hi 1024 default_temperature True],
       [lit ''H'', lit ''i''], None)"
    by (simp add: streamChatResponse_def greeter_def model_or_def maxTokens_of_def
          temperature_of_def openai_yields_def first_choice_def)
       (simp add: lit_def)
  show ?thesis
    using every_fragment_framed [OF u s] by simp
qed

section \<open>What the adapters send\<close>

text \<open>
  Claim C8. For the messages \<open>[{system, x}, {user, y}]\<close> the Anthropic branch of the
  blocking and of the streaming operation makes one call, with \<open>x\<close> as \<open>system\<close> and the
  single turn \<open>{user, y}\<close> as \<open>messages\<close>. For any list of messages, \<open>system\<close> is the
  content of the first system message and \<open>messages\<close> are the user and assistant turns
  in their original order.
\<close>

theorem anthropic_system_extraction:
  "fst (generateChatResponse up [\<lparr>role = System, content = x\<rparr>, \<lparr>role = User, content = y\<rparr>]
          (lit ''anthropic'') opts) =
     [Anthropic_create (model_or opts (lit ''claude-3-sonnet-20240229'')) (maxTokens_of opts)
        (Some x) [\<lparr>role = User, content = y\<rparr>]]
   \<and> fst (streamChatResponse up [\<lparr>role = System, content = x\<rparr>, \<lparr>role = User, content = y\<rparr>]
          (lit ''anthropic'') opts) =
     [Anthropic_stream (model_or opts (lit ''claude-3-sonnet-20240229'')) (maxTokens_of opts)
        (Some x) [\<lparr>role = User, content = y\<rparr>]]
   \<and> fst (generateChatResponse up ms (lit ''anthropic'') opts) =
     [Anthropic_create (model_or opts (lit ''claude-3-sonnet-20240229'')) (maxTokens_of opts)
        (map_option content (find (\<lambda>m. role m = System) ms))
        (filter (\<lambda>m. role m = User \<or> role m = Assistant) ms)]
   \<and> fst (streamChatResponse up ms (lit ''anthropic'') opts) =
     [Anthropic_stream (model_or opts (lit ''claude-3-sonnet-20240229'')) (maxTokens_of opts)
        (map_option content (find (\<lambda>m. role m = System) ms))
        (filter (\<lambda>m. role m = User \<or> role m = Assistant) ms)]"
proof -
  have r: "(\<lambda>m. role m \<noteq> System) = (\<lambda>m. role m = User \<or> role m = Assistant)"
    by (rule ext) (metis role.exhaust role.distinct(4,6))
  show ?thesis
    by (simp add: generateChatResponse_def streamChatResponse_def providers_differ
          systemMessage_def otherMessages_def r Let_def
          split: sum.splits stream.splits)
qed

text \<open>
  Claim C9 does not hold as stated. For the messages \<open>[{system, X}, {user, Y}]\<close> the
  history is the single entry \<open>{model, X}\<close>. A chat opened the way the SDK opens it
  refuses a history that does not start with the user: \<open>startChat\<close> throws, both
  operations throw its error, and \<open>Y\<close> is never sent.
\<close>

theorem system_first_is_not_sent:
  "history briefed = [(GModel, [lit ''X''])]
   \<and> user_first (lit ''gemini-flash-latest'') (history briefed) 1024 default_temperature =
       Some (Error (lit ''[GoogleGenerativeAI Error]: First content should be with role 'user', got model''))
   \<and> generateChatResponse greeter briefed (lit ''google'') no_options =
       ([], Inl (Error (lit ''[GoogleGenerativeAI Error]: First content should be with role 'user', got model'')))
   \<and> streamChatResponse greeter briefed (lit ''google'') no_options =
       ([], [], Some (Error (lit ''[GoogleGenerativeAI Error]: First content should be with role 'user', got model'')))"
  by (simp add: generateChatResponse_def streamChatResponse_def providers_differ greeter_def
        user_first_def history_def briefed_def no_options_def)

text \<open>
  Claim C9, amended. For a list of messages that is not empty, the Gemini branch of the
  blocking and of the streaming operation extracts no system message: every message but
  the last goes into the history given to \<open>startChat\<close>, as \<open>user\<close> when its role is \<open>user\<close>
  and as \<open>model\<close> otherwise, a system message too. When \<open>startChat\<close> accepts that history,
  the content of the last message is the text sent, whatever its role, in a chat with
  that history. When \<open>startChat\<close> throws, the operation throws the same error and nothing
  is sent.
\<close>

theorem gemini_forwards_all_messages:
  assumes "ms \<noteq> []"
    and "h = map (\<lambda>m. (if role m = User then GUser else GModel, [content m])) (butlast ms)"
  shows "(gemini_startChat up (model_or opts (lit ''gemini-flash-latest'')) h
            (maxTokens_of opts) (temperature_of opts) = None \<longrightarrow>
          fst (generateChatResponse up ms (lit ''google'') opts) =
            [Gemini_sendMessage (model_or opts (lit ''gemini-flash-latest'')) h
               (maxTokens_of opts) (temperature_of opts) (content (last ms))]
          \<and> fst (streamChatResponse up ms (lit ''google'') opts) =
            [Gemini_sendMessageStream (model_or opts (lit ''gemini-flash-latest'')) h
               (maxTokens_of opts) (temperature_of opts) (content (last ms))])
       \<and> (\<forall>e. gemini_startChat up (model_or opts (lit ''gemini-flash-latest'')) h
                 (maxTokens_of opts) (temperature_of opts) = Some e \<longrightarrow>
               generateChatResponse up ms (lit ''google'') opts = ([], Inl e)
               \<and> streamChatResponse up ms (lit ''google'') opts = ([], [], Some e))"
proof -
  have h: "history ms = h" by (simp add: history_def assms(2))
  have accepted: "fst (generateChatResponse up ms (lit ''google'') opts) =
            [Gemini_sendMessage (model_or opts (lit ''gemini-flash-latest'')) h
               (maxTokens_of opts) (temperature_of opts) (content (last ms))]
          \<and> fst (streamChatResponse up ms (lit ''google'') opts) =
            [Gemini_sendMessageStream (model_or opts (lit ''gemini-flash-latest'')) h
               (maxTokens_of opts) (temperature_of opts) (content (last ms))]"
    if "gemini_startChat up (model_or opts (lit ''gemini-flash-latest'')) h
            (maxTokens_of opts) (temperature_of opts) = None"
    using that assms(1)
    by (simp add: generateChatResponse_def streamChatResponse_def providers_differ h Let_def
          split: sum.splits stream.splits prod.splits option.splits)
  have refused: "generateChatResponse up ms (lit ''google'') opts = ([], Inl e)
               \<and> streamChatResponse up ms (lit ''google'') opts = ([], [], Some e)"
    if "gemini_startChat up (model_or opts (lit ''gemini-flash-latest'')) h
            (maxTokens_of opts) (temperature_of opts) = Some e" for e
    using that
    by (simp add: generateChatResponse_def streamChatResponse_def providers_differ h)
  from accepted refused show ?thesis by blast
qed

theorem gemini_forwards_all_messages_witness:
  "fst (generateChatResponse greeter resumed (lit ''google'') no_options) =
     [Gemini_sendMessage (lit ''gemini-flash-latest'')
        [(GUser, [lit ''hi'']), (GModel, [lit ''X''])] 1024 default_temperature (lit ''A'')]
   \<and> fst (streamChatResponse greeter resumed (lit ''google'') no_options) =
     [Gemini_sendMessageStream (lit ''gemini-flash-latest'')
        [(GUser, [lit ''hi'']), (GModel, [lit ''X''])] 1024 default_temperature (lit ''A'')]
   \<and> fst (generateChatResponse greeter briefed (lit ''google'') no_options) = []
   \<and> fst (streamChatResponse greeter briefed (lit ''google'') no_options) = []"
proof -
  have r: "resumed \<noteq> []"
    "[(GUser, [lit ''hi'']), (GModel, [lit ''X''])] =
       map (\<lambda>m. (if role m = User then GUser else GModel, [content m])) (butlast resumed)"
    by (simp_all add: resumed_def)
  have b: "briefed \<noteq> []"
    "[(GModel, [lit ''X''])] =
       map (\<lambda>m. (if role m = User then GUser else GModel, [content m])) (butlast briefed)"
    by (simp_all add: briefed_def)
  show ?thesis
    using gemini_forwards_all_messages [OF r, of greeter no_options]
      gemini_forwards_all_messages [OF b, of greeter no_options]
    by (simp add: greeter_def user_first_def no_options_def model_or_def maxTokens_of_def
          temperature_of_def resumed_def briefed_def)
qed

section \<open>Blocking and streaming\<close>

lemma openai_yields_text: "concat (openai_yields chunks) = concat (map choice_text chunks)"
  by (induction chunks) (auto simp: openai_yields_def choice_text_def split: option.splits)

lemma gemini_yields_text:
  "gemini_yields chunks = (fs, None) \<Longrightarrow> concat fs = concat (map chunk_text chunks)"
  by (induction chunks arbitrary: fs rule: gemini_yields.induct)
     (auto simp: chunk_text_def split: prod.splits if_splits)

lemma yields_as_delta_text:
  "\<forall>i t. ContentBlockDelta i (TextDelta t) \<in> set events \<longrightarrow> t = delta_text k (ContentBlockDelta i (TextDelta t)) \<Longrightarrow>
   concat (anthropic_yields events) = concat (map (delta_text k) events)"
proof (induction events)
  case Nil
  then show ?case by (simp add: anthropic_yields_def)
next
  case (Cons ev events)
  then have ih: "concat (anthropic_yields events) = concat (map (delta_text k) events)" by simp
  show ?case
  proof (cases ev)
    case (ContentBlockDelta i d)
    show ?thesis
    proof (cases d)
      case (TextDelta t)
      have ev: "ev = ContentBlockDelta i (TextDelta t)"
        using ContentBlockDelta TextDelta by simp
      have "delta_text k ev = t" using Cons.prems by (simp add: ev)
      moreover have "anthropic_yields (ev # events) = t # anthropic_yields events"
        by (simp add: anthropic_yields_def ev)
      ultimately show ?thesis using ih by simp
    next
      case OtherDelta
      have "delta_text k ev = []" "anthropic_yields (ev # events) = anthropic_yields events"
        using ContentBlockDelta OtherDelta by (simp_all add: delta_text_def anthropic_yields_def)
      then show ?thesis using ih by simp
    qed
  next
    case OtherEvent
    then have "delta_text k ev = []" "anthropic_yields (ev # events) = anthropic_yields events"
      by (simp_all add: delta_text_def anthropic_yields_def)
    then show ?thesis using ih by simp
  qed
qed

lemma concat_Nil_member: "concat (map f xs) = [] \<Longrightarrow> x \<in> set xs \<Longrightarrow> f x = []"
  by (induction xs) auto

lemma two_hits:
  assumes "i < j" "j < length xs" "P (xs ! i)" "P (xs ! j)"
  shows "2 \<le> length (filter P xs)"
proof -
  have i: "i < length xs" using assms by simp
  have xs: "xs = take i xs @ xs ! i # drop (Suc i) xs"
    using i by (simp add: id_take_nth_drop)
  have "xs ! j \<in> set (drop (Suc i) xs)"
    using assms(1,2) by (auto simp: in_set_conv_nth intro!: exI [of _ "j - Suc i"])
  then have "filter P (drop (Suc i) xs) \<noteq> []"
    using assms(4) by (auto simp: filter_empty_conv)
  then have "1 \<le> length (filter P (drop (Suc i) xs))"
    by (cases "filter P (drop (Suc i) xs)") simp_all
  moreover have "length (filter P xs) =
      length (filter P (take i xs)) + length (filter P (xs ! i # drop (Suc i) xs))"
    by (subst xs) simp
  ultimately show ?thesis using assms(3) by simp
qed

lemma anthropic_text:
  assumes a: "\<forall>i<length blocks. concat (map (delta_text i) events) = block_text (blocks ! i)"
    and b: "\<forall>i d. ContentBlockDelta i d \<in> set events \<longrightarrow> i < length blocks"
    and c: "length (filter is_text blocks) \<le> 1"
  shows "concat (anthropic_yields events) = textBlock blocks"
proof (cases "find is_text blocks")
  case None
  then have no: "\<forall>i<length blocks. \<not> is_text (blocks ! i)"
    by (auto simp: find_None_iff)
  have "\<forall>i t. ContentBlockDelta i (TextDelta t) \<in> set events \<longrightarrow>
      t = delta_text 0 (ContentBlockDelta i (TextDelta t)) \<and> delta_text 0 (ContentBlockDelta i (TextDelta t)) = []"
  proof (intro allI impI)
    fix i t
    assume ev: "ContentBlockDelta i (TextDelta t) \<in> set events"
    with b have i: "i < length blocks" by blast
    with no have "\<not> is_text (blocks ! i)" by simp
    then have "block_text (blocks ! i) = []"
      by (cases "blocks ! i") (simp_all add: is_text_def block_text_def)
    with a i have "concat (map (delta_text i) events) = []" by simp
    from concat_Nil_member [OF this ev] have "t = []" by (simp add: delta_text_def)
    then show "t = delta_text 0 (ContentBlockDelta i (TextDelta t)) \<and>
        delta_text 0 (ContentBlockDelta i (TextDelta t)) = []"
      by (simp add: delta_text_def)
  qed
  then have all: "\<forall>i t. ContentBlockDelta i (TextDelta t) \<in> set events \<longrightarrow> t = []" by metis
  have "concat (anthropic_yields events) = []"
    using all
    by (induction events) (auto simp: anthropic_yields_def split: event.splits delta.splits)
  with None show ?thesis by (simp add: textBlock_def)
next
  case (Some blk)
  then obtain k where k: "k < length blocks" "is_text (blocks ! k)" "blk = blocks ! k"
    by (auto simp: find_Some_iff)
  then obtain s where s: "blocks ! k = TextBlock s"
    by (cases "blocks ! k") (auto simp: is_text_def)
  have tb: "textBlock blocks = s" using Some k(3) s by (simp add: textBlock_def)
  have others: "\<not> is_text (blocks ! i)" if "i < length blocks" "i \<noteq> k" for i
  proof
    assume t: "is_text (blocks ! i)"
    have "2 \<le> length (filter is_text blocks)"
    proof (cases "i < k")
      case True
      then show ?thesis using two_hits [of i k blocks is_text] k t by simp
    next
      case False
      with that have "k < i" by simp
      then show ?thesis using two_hits [of k i blocks is_text] k t that by simp
    qed
    with c show False by simp
  qed
  have "\<forall>i t. ContentBlockDelta i (TextDelta t) \<in> set events \<longrightarrow>
      t = delta_text k (ContentBlockDelta i (TextDelta t))"
  proof (intro allI impI)
    fix i t
    assume ev: "ContentBlockDelta i (TextDelta t) \<in> set events"
    show "t = delta_text k (ContentBlockDelta i (TextDelta t))"
    proof (cases "i = k")
      case True
      then show ?thesis by (simp add: delta_text_def)
    next
      case False
      from ev b have i: "i < length blocks" by blast
      have "\<not> is_text (blocks ! i)" using others [OF i False] .
      then have "block_text (blocks ! i) = []"
        by (cases "blocks ! i") (simp_all add: is_text_def block_text_def)
      with a i have "concat (map (delta_text i) events) = []" by simp
      from concat_Nil_member [OF this ev] have "t = []" by (simp add: delta_text_def)
      with False show ?thesis by (simp add: delta_text_def)
    qed
  qed
  then have "concat (anthropic_yields events) = concat (map (delta_text k) events)"
    by (rule yields_as_delta_text)
  also have "\<dots> = block_text (blocks ! k)" using a k(1) by simp
  finally show ?thesis using tb s by (simp add: block_text_def)
qed


lemma spells_greeter: "spells greeter"
  by (auto simp: spells_def greeter_def choice_text_def first_choice_def delta_text_def
        block_text_def chunk_text_def lit_def)

lemma spells_two_blocks: "spells two_blocks"
  by (auto simp: spells_def two_blocks_def greeter_def choice_text_def first_choice_def
        delta_text_def block_text_def chunk_text_def lit_def less_Suc_eq nth_Cons')

text \<open>
  Claim C6 does not hold as stated. The provider below answers the same request the
  same way in both modes, with a message of two text blocks. The blocking operation
  returns the first block, \<open>Hel\<close>; the fragments of the streaming operation
  concatenate to \<open>Hello\<close>.
\<close>

theorem anthropic_returns_first_block:
  "spells two_blocks
   \<and> generateChatResponse two_blocks says_hi (lit ''anthropic'') no_options =
       ([Anthropic_create (lit ''claude-3-sonnet-20240229'') 1024 None says_hi], Inr (lit ''Hel''))
   \<and> streamChatResponse two_blocks says_hi (lit ''anthropic'') no_options =
       ([Anthropic_stream (lit ''claude-3-sonnet-20240229'') 1024 None says_hi],
        [lit ''Hel'', lit ''lo''], None)"
proof -
  have "generateChatResponse two_blocks says_hi (lit ''anthropic'') no_options =
       ([Anthropic_create (lit ''claude-3-sonnet-20240229'') 1024 None says_hi], Inr (lit ''Hel''))"
    by (simp add: generateChatResponse_def providers_differ two_blocks_def greeter_def
          no_options_def model_or_def maxTokens_of_def systemMessage_def otherMessages_def
          says_hi_def textBlock_def is_text_def)
  moreover
  have "streamChatResponse two_blocks says_hi (lit ''anthropic'') no_options =
       ([Anthropic_stream (lit ''claude-3-sonnet-20240229'') 1024 None says_hi],
        [lit ''Hel'', lit ''lo''], None)"
    by (simp add: streamChatResponse_def providers_differ two_blocks_def greeter_def
          no_options_def model_or_def maxTokens_of_def systemMessage_def otherMessages_def
          says_hi_def anthropic_yields_def)
  ultimately show ?thesis using spells_two_blocks by (simp only: simp_thms)
qed

lemma spells_openai:
  "spells up \<Longrightarrow> openai_create up (OpenAI_create m ms n t False) = Inr choices \<Longrightarrow>
   openai_create_stream up (OpenAI_create m ms n t True) = Inr (Stream chunks None) \<Longrightarrow>
   concat (map choice_text chunks) = choice_text choices"
  unfolding spells_def by (elim conjE allE [of _ m] allE [of _ ms] allE [of _ n] allE [of _ t]) fast

lemma spells_anthropic:
  assumes "spells up" "anthropic_create up (Anthropic_create m n s ms) = Inr blocks"
    "anthropic_stream up (Anthropic_stream m n s ms) = Inr (Stream events None)"
  shows "\<forall>i<length blocks. concat (map (delta_text i) events) = block_text (blocks ! i)"
    and "\<forall>i d. ContentBlockDelta i d \<in> set events \<longrightarrow> i < length blocks"
proof -
  from assms(1) have "\<forall>m n s ms blocks events.
         anthropic_create up (Anthropic_create m n s ms) = Inr blocks \<longrightarrow>
         anthropic_stream up (Anthropic_stream m n s ms) = Inr (Stream events None) \<longrightarrow>
         (\<forall>i<length blocks. concat (map (delta_text i) events) = block_text (blocks ! i))
         \<and> (\<forall>i d. ContentBlockDelta i d \<in> set events \<longrightarrow> i < length blocks)"
    by (simp add: spells_def)
  with assms(2,3) have "(\<forall>i<length blocks. concat (map (delta_text i) events) = block_text (blocks ! i))
         \<and> (\<forall>i d. ContentBlockDelta i d \<in> set events \<longrightarrow> i < length blocks)"
    by fast
  then show "\<forall>i<length blocks. concat (map (delta_text i) events) = block_text (blocks ! i)"
    and "\<forall>i d. ContentBlockDelta i d \<in> set events \<longrightarrow> i < length blocks"
    by simp_all
qed

lemma spells_gemini:
  assumes "spells up" "gemini_sendMessage up (Gemini_sendMessage m h n t p) = Inr (Inr text)"
    "gemini_sendMessageStream up (Gemini_sendMessageStream m h n t p) = Inr (Stream chunks None)"
  shows "concat (map chunk_text chunks) = text"
proof -
  from assms(1) have "\<forall>m h n t p text chunks.
         gemini_sendMessage up (Gemini_sendMessage m h n t p) = Inr (Inr text) \<longrightarrow>
         gemini_sendMessageStream up (Gemini_sendMessageStream m h n t p) =
           Inr (Stream chunks None) \<longrightarrow>
         concat (map chunk_text chunks) = text"
    by (simp add: spells_def)
  with assms(2,3) show ?thesis by fast
qed

text \<open>
  Claim C6, amended. Let the provider answer the same request the same way in both
  modes, and, for Anthropic, let its messages hold at most one text block. Whenever
  the blocking operation returns a text and the streaming operation over the same
  inputs runs to its end, the concatenation of the fragments yielded is that text.
  (With several text blocks the blocking operation returns the first of them only.)
\<close>

theorem stream_spells_complete:
  assumes "spells up" and "p = lit ''anthropic'' \<longrightarrow> one_text_block up"
    and "snd (generateChatResponse up ms p opts) = Inr text"
    and "snd (snd (streamChatResponse up ms p opts)) = None"
  shows "concat (fst (snd (streamChatResponse up ms p opts))) = text"
proof -
  consider (openai) "p = lit ''openai''" | (anthropic) "p = lit ''anthropic''"
    | (google) "p = lit ''google''"
    | (other) "p \<noteq> lit ''openai''" "p \<noteq> lit ''anthropic''" "p \<noteq> lit ''google''"
    by blast
  then show ?thesis
  proof cases
    case openai
    define m where "m = model_or opts (lit ''gpt-3.5-turbo'')"
    obtain choices where g: "openai_create up
        (OpenAI_create m ms (maxTokens_of opts) (temperature_of opts) False) = Inr choices"
      and t: "text = choice_text choices"
      using assms(3) openai
      by (auto simp: generateChatResponse_def m_def choice_text_def Let_def split: sum.splits)
    obtain chunks where s: "openai_create_stream up
        (OpenAI_create m ms (maxTokens_of opts) (temperature_of opts) True) = Inr (Stream chunks None)"
      and f: "fst (snd (streamChatResponse up ms p opts)) = openai_yields chunks"
      using assms(4) openai
      by (auto simp: streamChatResponse_def m_def Let_def split: sum.splits stream.splits)
    from assms(1) g s have "concat (map choice_text chunks) = choice_text choices"
      by (rule spells_openai)
    then show ?thesis by (simp add: f t openai_yields_text)
  next
    case anthropic
    define m where "m = model_or opts (lit ''claude-3-sonnet-20240229'')"
    obtain blocks where g: "anthropic_create up
        (Anthropic_create m (maxTokens_of opts) (systemMessage ms) (otherMessages ms)) = Inr blocks"
      and t: "text = textBlock blocks"
      using assms(3) anthropic
      by (auto simp: generateChatResponse_def providers_differ m_def Let_def split: sum.splits)
    obtain events where s: "anthropic_stream up
        (Anthropic_stream m (maxTokens_of opts) (systemMessage ms) (otherMessages ms)) =
          Inr (Stream events None)"
      and f: "fst (snd (streamChatResponse up ms p opts)) = anthropic_yields events"
      using assms(4) anthropic
      by (auto simp: streamChatResponse_def providers_differ m_def Let_def split: sum.splits stream.splits)
    note a = spells_anthropic(1) [OF assms(1) g s] and b = spells_anthropic(2) [OF assms(1) g s]
    have c: "length (filter is_text blocks) \<le> 1"
      using assms(2) anthropic g unfolding one_text_block_def by blast
    show ?thesis by (simp add: f t anthropic_text [OF a b c])
  next
    case google
    define m where "m = model_or opts (lit ''gemini-flash-latest'')"
    have sc: "gemini_startChat up m (history ms) (maxTokens_of opts) (temperature_of opts) = None"
      using assms(3) google
      by (auto simp: generateChatResponse_def providers_differ m_def split: option.splits)
    have ne: "ms \<noteq> []"
      using assms(3) google sc
      by (auto simp: generateChatResponse_def providers_differ m_def)
    have g: "gemini_sendMessage up
        (Gemini_sendMessage m (history ms) (maxTokens_of opts) (temperature_of opts)
           (content (last ms))) = Inr (Inr text)"
      using assms(3) google ne sc
      by (auto simp: generateChatResponse_def providers_differ m_def Let_def split: sum.splits)
    obtain chunks where s: "gemini_sendMessageStream up
        (Gemini_sendMessageStream m (history ms) (maxTokens_of opts) (temperature_of opts)
           (content (last ms))) = Inr (Stream chunks None)"
      and f: "gemini_yields chunks = (fst (snd (streamChatResponse up ms p opts)), None)"
      using assms(4) google ne sc
      by (auto simp: streamChatResponse_def providers_differ m_def Let_def
            split: sum.splits stream.splits prod.splits option.splits)
    from assms(1) g s have "concat (map chunk_text chunks) = text"
      by (rule spells_gemini)
    then show ?thesis using gemini_yields_text [OF f] by simp
  next
    case other
    then show ?thesis using assms(3) by (simp add: generateChatResponse_def)
  qed
qed

lemma one_text_block_greeter: "one_text_block greeter"
  by (auto simp: one_text_block_def greeter_def is_text_def)

theorem stream_spells_complete_witness:
  "concat (fst (snd (streamChatResponse greeter says_hi (lit ''anthropic'') no_options))) = lit ''Hi''
   \<and> snd (generateChatResponse greeter says_hi (lit ''anthropic'') no_options) = Inr (lit ''Hi'')"
proof -
  have g: "snd (generateChatResponse greeter says_hi (lit ''anthropic'') no_options) = Inr (lit ''Hi'')"
    by (simp add: generateChatResponse_def providers_differ greeter_def textBlock_def is_text_def
          Let_def)
  have s: "snd (snd (streamChatResponse greeter says_hi (lit ''anthropic'') no_options)) = None"
    by (simp add: streamChatResponse_def providers_differ greeter_def Let_def)
  have o: "lit ''anthropic'' = lit ''anthropic'' \<longrightarrow> one_text_block greeter"
    by (simp add: one_text_block_greeter)
  show ?thesis
    using stream_spells_complete [OF spells_greeter o g s] g by simp
qed

end
